theory Spec2Isabelle
  imports Main "HOL-Library.Sublist"
begin

section \<open>Byte strings and sockets\<close>

text \<open>
  A Python \<open>bytes\<close> value is a list of 8-bit characters. \<open>of_char\<close> reads a byte as a
  number and \<open>char_of\<close> builds the byte of a number below 256.
\<close>

type_synonym byte = char
type_synonym bytes = "char list"

text \<open>
  What the peer of a socket does is a script: the events that successive \<open>recv\<close> calls
  meet, and the outcomes of successive \<open>sendall\<close> calls. \<open>Data bs\<close> is a segment that
  has arrived; \<open>recv n\<close> takes at most \<open>n\<close> bytes of it and leaves the rest. \<open>Eof\<close>
  is the peer closing its side, \<open>TimedOut\<close> a \<open>socket.timeout\<close>, \<open>Broken\<close> any other
  exception of \<open>recv\<close>. A script that has run out behaves as a closed stream.
\<close>

datatype recv_event = Data bytes | Eof | TimedOut | Broken

datatype recv_result = Got bytes | RaisedTimeout | RaisedError

datatype send_result = SendOk | SendFail nat

record socket =
  sock_id :: nat
  recv_script :: "recv_event list"
  send_script :: "send_result list"

fun recv :: "recv_event list \<Rightarrow> nat \<Rightarrow> recv_result \<times> recv_event list" where
  "recv [] n = (Got [], [])"
| "recv (Data bs # evs) n =
     (if length bs \<le> n then (Got bs, evs) else (Got (take n bs), Data (drop n bs) # evs))"
| "recv (Eof # evs) n = (Got [], Eof # evs)"
| "recv (TimedOut # evs) n = (RaisedTimeout, evs)"
| "recv (Broken # evs) n = (RaisedError, evs)"

text \<open>
  \<open>sendall\<close> on a socket: \<open>SendOk\<close> puts every byte on the wire; \<open>SendFail k\<close> puts
  at most \<open>k\<close> bytes there and raises. With no outcome left the socket is dead and the
  call raises with nothing written. The result is the bytes that reached the wire,
  whether the call returned normally, and the socket afterwards.
\<close>

fun sendall :: "socket \<Rightarrow> bytes \<Rightarrow> bytes \<times> bool \<times> socket" where
  "sendall s bs =
     (case send_script s of
        [] \<Rightarrow> ([], False, s)
      | SendOk # rest \<Rightarrow> (bs, True, s\<lparr>send_script := rest\<rparr>)
      | SendFail k # rest \<Rightarrow> (take k bs, False, s\<lparr>send_script := rest\<rparr>))"

section \<open>utils/protocol.py: the frame codec\<close>

definition MSG_REQUEST :: int where
  "MSG_REQUEST = 0"

definition MSG_RESPONSE :: int where
  "MSG_RESPONSE = 1"

text \<open>
  \<open>struct.pack('>I', n)\<close>: four bytes, most significant first; \<open>struct.error\<close> (here
  \<open>None\<close>) when \<open>n\<close> does not fit 32 bits. \<open>struct.pack('B', t)\<close>: one byte;
  \<open>struct.error\<close> outside \<open>0..255\<close>.
\<close>

definition pack_I :: "nat \<Rightarrow> bytes option" where
  "pack_I n =
     (if n < 2 ^ 32
      then Some [char_of (n div 2 ^ 24), char_of (n div 2 ^ 16), char_of (n div 2 ^ 8), char_of n]
      else None)"

definition pack_B :: "int \<Rightarrow> bytes option" where
  "pack_B t = (if 0 \<le> t \<and> t < 256 then Some [char_of t] else None)"

text \<open>\<open>struct.unpack('>I', b)[0]\<close> on four bytes and \<open>struct.unpack('B', b)[0]\<close> on one.\<close>

definition unpack_I :: "bytes \<Rightarrow> nat" where
  "unpack_I b =
     of_char (b ! 0) * 2 ^ 24 + of_char (b ! 1) * 2 ^ 16 + of_char (b ! 2) * 2 ^ 8 + of_char (b ! 3)"

definition unpack_B :: "bytes \<Rightarrow> int" where
  "unpack_B b = of_char (b ! 0)"

text \<open>
  The wire image \<open>header + payload\<close> that \<open>send_message\<close> builds before it sends:
  \<open>None\<close> where \<open>struct.pack\<close> raises, that is for a payload of \<open>2^32\<close> bytes or
  more or a type outside a byte.
\<close>

definition frame :: "int \<Rightarrow> bytes \<Rightarrow> bytes option" where
  "frame msg_type payload =
     (case pack_I (length payload) of
        None \<Rightarrow> None
      | Some hl \<Rightarrow>
          (case pack_B msg_type of
             None \<Rightarrow> None
           | Some ht \<Rightarrow> Some ((hl @ ht) @ payload)))"

text \<open>
  \<open>send_message\<close>: one \<open>sendall\<close> of header and payload; \<open>False\<close> when packing or
  sending raises. The first component is what reached the wire.
\<close>

definition send_message :: "socket \<Rightarrow> int \<Rightarrow> bytes \<Rightarrow> bytes \<times> bool \<times> socket" where
  "send_message sock msg_type payload =
     (case frame msg_type payload of
        None \<Rightarrow> ([], False, sock)
      | Some f \<Rightarrow> sendall sock f)"

text \<open>
  \<open>_read_exact\<close>: the loop runs while fewer than \<open>num_bytes\<close> bytes are held; an empty
  chunk, a timeout or any other exception returns \<open>None\<close>.
\<close>

function read_exact_loop ::
  "recv_event list \<Rightarrow> nat \<Rightarrow> bytes \<Rightarrow> bytes option \<times> recv_event list" where
  "read_exact_loop evs num_bytes data =
     (if length data < num_bytes then
        (case fst (recv evs (num_bytes - length data)) of
           Got chunk \<Rightarrow>
             if chunk = [] then (None, snd (recv evs (num_bytes - length data)))
             else read_exact_loop (snd (recv evs (num_bytes - length data))) num_bytes (data @ chunk)
         | RaisedTimeout \<Rightarrow> (None, snd (recv evs (num_bytes - length data)))
         | RaisedError \<Rightarrow> (None, snd (recv evs (num_bytes - length data))))
      else (Some data, evs))"
  by pat_completeness auto
termination
  by (relation "measure (\<lambda>(evs, num_bytes, data). num_bytes - length data)")
    (auto simp: neq_Nil_conv)

declare read_exact_loop.simps [simp del]

definition read_exact :: "recv_event list \<Rightarrow> nat \<Rightarrow> bytes option \<times> recv_event list" where
  "read_exact evs num_bytes = read_exact_loop evs num_bytes []"

text \<open>
  \<open>read_message\<close>: five header bytes, then \<open>payload_length\<close> payload bytes. The result is
  the pair the Python returns, \<open>(None, None)\<close> or \<open>(msg_type, payload)\<close>, and the stream
  left behind. Nothing compares \<open>payload_length\<close> or \<open>msg_type\<close> with anything.
\<close>

definition read_message ::
  "recv_event list \<Rightarrow> (int option \<times> bytes option) \<times> recv_event list" where
  "read_message evs =
     (case read_exact evs 5 of
        (None, evs1) \<Rightarrow> ((None, None), evs1)
      | (Some header, evs1) \<Rightarrow>
          if header = [] then ((None, None), evs1)
          else
            (let payload_length = unpack_I (take 4 header);
                 msg_type = unpack_B (take 1 (drop 4 header))
             in case read_exact evs1 payload_length of
                  (None, evs2) \<Rightarrow> ((None, None), evs2)
                | (Some payload, evs2) \<Rightarrow> ((Some msg_type, Some payload), evs2)))"

text \<open>
  The bytes a stream delivers before its first event that is not a non-empty segment:
  what a reader can get out of it before \<open>recv\<close> returns nothing or raises.
\<close>

fun avail :: "recv_event list \<Rightarrow> bytes" where
  "avail (Data bs # evs) = (if bs = [] then [] else bs @ avail evs)"
| "avail _ = []"

section \<open>client/client.py: the link and the request processor\<close>

text \<open>
  The ship's side of the world: the outcomes of the dials still to come (a dial with no
  outcome left fails), and the trace of everything the processor thread has done to
  the network and to the submitters, oldest first.
\<close>

record response_container =
  data :: "bytes option"
  error :: "string option"

datatype event =
    Dialed "nat option"
  | Slept nat
  | Wrote nat bytes bool
  | ReadMsg nat "int option \<times> bytes option"
  | ClosedSock nat
  | Completed string response_container

record world =
  dial_script :: "socket option list"
  trace :: "event list"

definition emit :: "event \<Rightarrow> world \<Rightarrow> world" where
  "emit e w = w\<lparr>trace := trace w @ [e]\<rparr>"

text \<open>
  \<open>create_tcp_connection\<close> returns a connected socket, or \<open>None\<close> on any exception.
\<close>

definition create_tcp_connection :: "world \<Rightarrow> socket option \<times> world" where
  "create_tcp_connection w =
     (case dial_script w of
        [] \<Rightarrow> (None, emit (Dialed None) w)
      | r # rest \<Rightarrow> (r, emit (Dialed (map_option sock_id r)) (w\<lparr>dial_script := rest\<rparr>)))"

text \<open>\<open>close_connection\<close> closes a socket if there is one.\<close>

definition close_connection :: "socket option \<Rightarrow> world \<Rightarrow> world" where
  "close_connection sock w = (case sock of None \<Rightarrow> w | Some s \<Rightarrow> emit (ClosedSock (sock_id s)) w)"

text \<open>
  The fields of \<open>ShipProxyClient\<close> the processor thread works on. \<open>__init__\<close> sets
  \<open>max_reconnect_attempts\<close> to 5.
\<close>

record client =
  offshore_socket :: "socket option"
  reconnect_attempts :: nat
  max_reconnect_attempts :: nat

definition init_client :: client where
  "init_client = \<lparr>offshore_socket = None, reconnect_attempts = 0, max_reconnect_attempts = 5\<rparr>"

text \<open>
  \<open>connect_to_offshore\<close>: the \<open>for attempt in range(max_reconnect_attempts)\<close> loop,
  as a recursion over the attempts still to make. Each attempt stores what the dial
  returned in \<open>offshore_socket\<close>; a socket ends the loop with \<open>True\<close> and resets the
  counter; a failure sleeps \<open>min(2 ** attempt, 10)\<close> seconds unless it was the last
  attempt.
\<close>

fun connect_attempts :: "nat list \<Rightarrow> client \<Rightarrow> world \<Rightarrow> bool \<times> client \<times> world" where
  "connect_attempts [] c w = (False, c, w)"
| "connect_attempts (attempt # later) c w =
     (case create_tcp_connection w of
        (Some s, w1) \<Rightarrow> (True, c\<lparr>offshore_socket := Some s, reconnect_attempts := 0\<rparr>, w1)
      | (None, w1) \<Rightarrow>
          connect_attempts later (c\<lparr>offshore_socket := None\<rparr>)
            (if int attempt < int (max_reconnect_attempts c) - 1
             then emit (Slept (min (2 ^ attempt) 10)) w1 else w1))"

definition connect_to_offshore :: "client \<Rightarrow> world \<Rightarrow> bool \<times> client \<times> world" where
  "connect_to_offshore c w = connect_attempts [0..<max_reconnect_attempts c] c w"

text \<open>
  \<open>send_message\<close> and \<open>read_message\<close> on the client's socket field. On \<open>None\<close> the
  attribute access raises inside their \<open>try\<close>, so they return \<open>False\<close> and
  \<open>(None, None)\<close>.
\<close>

definition client_send :: "client \<Rightarrow> world \<Rightarrow> bytes \<Rightarrow> bool \<times> client \<times> world" where
  "client_send c w payload =
     (case offshore_socket c of
        None \<Rightarrow> (False, c, w)
      | Some s \<Rightarrow>
          (case send_message s MSG_REQUEST payload of
             (written, ok, s') \<Rightarrow>
               (ok, c\<lparr>offshore_socket := Some s'\<rparr>, emit (Wrote (sock_id s) written ok) w)))"

definition client_read :: "client \<Rightarrow> world \<Rightarrow> (int option \<times> bytes option) \<times> client \<times> world" where
  "client_read c w =
     (case offshore_socket c of
        None \<Rightarrow> ((None, None), c, w)
      | Some s \<Rightarrow>
          (case read_message (recv_script s) of
             (r, evs') \<Rightarrow>
               (r, c\<lparr>offshore_socket := Some (s\<lparr>recv_script := evs'\<rparr>)\<rparr>,
                emit (ReadMsg (sock_id s) r) w)))"

text \<open>
  A queued request item: its id and the raw request bytes (the method and path it also
  carries are only logged). \<open>complete\<close> is \<open>response_event.set()\<close> followed by
  \<open>task_done()\<close>, recorded with the container's content at that moment.
\<close>

record request_item =
  item_id :: string
  request_data :: bytes

definition complete :: "request_item \<Rightarrow> response_container \<Rightarrow> world \<Rightarrow> world" where
  "complete item rc w = emit (Completed (item_id item) rc) w"

definition empty_container :: response_container where
  "empty_container = \<lparr>data = None, error = None\<rparr>"

text \<open>
  Waiting for the response (lines 362-373, then 385-386): the frame is taken only if its
  type is \<open>MSG_RESPONSE\<close> and a payload came with it; otherwise the error is set and the
  socket closed and cleared. Nothing is read a second time.
\<close>

definition await_response :: "client \<Rightarrow> world \<Rightarrow> request_item \<Rightarrow> client \<times> world" where
  "await_response c w item =
     (case client_read c w of
        ((msg_type, payload), c1, w1) \<Rightarrow>
          if msg_type = Some MSG_RESPONSE \<and> payload \<noteq> None
          then (c1, complete item (empty_container\<lparr>data := payload\<rparr>) w1)
          else (c1\<lparr>offshore_socket := None\<rparr>,
                complete item
                  (empty_container\<lparr>error := Some ''Invalid response from offshore proxy''\<rparr>)
                  (close_connection (offshore_socket c1) w1)))"

text \<open>
  Sending the request (lines 344-360): on a failed send the socket is closed and cleared
  and \<open>connect_to_offshore\<close> is called; the send is then tried once more, and a second
  failure, or no connection, completes the item with an error (the \<open>continue\<close>).
\<close>

definition send_request :: "client \<Rightarrow> world \<Rightarrow> request_item \<Rightarrow> client \<times> world" where
  "send_request c w item =
     (case client_send c w (request_data item) of
        (True, c1, w1) \<Rightarrow> await_response c1 w1 item
      | (False, c1, w1) \<Rightarrow>
          (case connect_to_offshore (c1\<lparr>offshore_socket := None\<rparr>)
                  (close_connection (offshore_socket c1) w1) of
             (True, c2, w2) \<Rightarrow>
               (case client_send c2 w2 (request_data item) of
                  (True, c3, w3) \<Rightarrow> await_response c3 w3 item
                | (False, c3, w3) \<Rightarrow>
                    (c3, complete item
                       (empty_container\<lparr>error := Some ''Failed to send request after reconnection''\<rparr>)
                       w3))
           | (False, c2, w2) \<Rightarrow>
               (c2, complete item
                  (empty_container\<lparr>error := Some ''Lost connection to offshore proxy''\<rparr>) w2)))"

text \<open>
  One turn of the \<open>while self.running\<close> loop for a dequeued item (lines 324-386): with no
  socket, connect first, and complete the item with an error if that fails. Inside the
  \<open>try\<close> nothing raises (\<open>send_message\<close>, \<open>read_message\<close>, \<open>create_tcp_connection\<close>
  and \<open>close_connection\<close> catch everything), so the \<open>except\<close> branch has no case here.
\<close>

definition process_item :: "client \<Rightarrow> world \<Rightarrow> request_item \<Rightarrow> client \<times> world" where
  "process_item c w item =
     (if offshore_socket c = None then
        (case connect_to_offshore c w of
           (True, c1, w1) \<Rightarrow> send_request c1 w1 item
         | (False, c1, w1) \<Rightarrow>
             (c1, complete item
                (empty_container\<lparr>error := Some ''Cannot connect to offshore proxy''\<rparr>) w1))
      else send_request c w item)"

text \<open>
  \<open>process_requests\<close> on the items in the order \<open>request_queue.get\<close> returns them.
\<close>

fun process_requests :: "client \<Rightarrow> world \<Rightarrow> request_item list \<Rightarrow> client \<times> world" where
  "process_requests c w [] = (c, w)"
| "process_requests c w (item # items) =
     (case process_item c w item of (c1, w1) \<Rightarrow> process_requests c1 w1 items)"

text \<open>Readings of a trace: the bytes put on the wire, the dials, the sleeps, the completions.\<close>

fun wire_bytes :: "event list \<Rightarrow> bytes" where
  "wire_bytes [] = []"
| "wire_bytes (Wrote i bs ok # es) = bs @ wire_bytes es"
| "wire_bytes (e # es) = wire_bytes es"

fun completions :: "event list \<Rightarrow> (string \<times> response_container) list" where
  "completions [] = []"
| "completions (Completed i rc # es) = (i, rc) # completions es"
| "completions (e # es) = completions es"

text \<open>
  The events of one undisturbed exchange on socket \<open>sid\<close>: the request frame written,
  the response read, the item completed with it.
\<close>

definition exchange :: "nat \<Rightarrow> request_item \<times> bytes \<times> bytes \<Rightarrow> event list" where
  "exchange sid x =
     (case x of (item, f, r) \<Rightarrow>
        [Wrote sid f True, ReadMsg sid (Some MSG_RESPONSE, Some r),
         Completed (item_id item) \<lparr>data = Some r, error = None\<rparr>])"

fun dials :: "event list \<Rightarrow> nat" where
  "dials [] = 0"
| "dials (Dialed r # es) = Suc (dials es)"
| "dials (e # es) = dials es"

section \<open>server/server.py: the offshore request processor\<close>

subsection \<open>Python strings\<close>

text \<open>
  A Python \<open>str\<close> is a list of code points. \<open>U\<close> reads an ASCII (or Latin-1) literal as
  such a list.
\<close>

type_synonym ustr = "nat list"

definition U :: "string \<Rightarrow> ustr" where
  "U s = map of_char s"

definition CRLF :: ustr where
  "CRLF = [13, 10]"

text \<open>
  An exception is a value: its class, as far as the handlers of \<open>process_http_request\<close>
  tell classes apart, and the text that \<open>str(e)\<close> gives. A function that may raise returns
  \<open>exn + 'a\<close>, with \<open>Inl\<close> the exception.
\<close>

datatype exn_kind = UnicodeDecodeError | UnicodeEncodeError | ValueError | OtherError

datatype exn = Exn exn_kind ustr

text \<open>The decimal digits of a natural number, as an f-string writes an \<open>int\<close>.\<close>

fun str_nat :: "nat \<Rightarrow> ustr" where
  "str_nat n = (if n < 10 then [48 + n] else str_nat (n div 10) @ [48 + n mod 10])"

declare str_nat.simps [simp del]

text \<open>
  \<open>bytes.decode('utf-8', errors='replace')\<close>. A well-formed sequence gives its code point.
  At an ill-formed one the decoder emits U+FFFD for the longest prefix that could still
  begin a well-formed sequence (one byte at least) and resumes right after it. The lead
  bytes C2..DF take one continuation byte, E0..EF two, F0..F4 three; after E0 the second
  byte must be at least A0 (no overlong form), after ED below A0 (no surrogate), after F0
  at least 90, after F4 below 90 (nothing above U+10FFFF). The function never raises.
\<close>

definition is_cont :: "nat \<Rightarrow> bool" where
  "is_cont b \<longleftrightarrow> 0x80 \<le> b \<and> b < 0xC0"

definition second_ok3 :: "nat \<Rightarrow> nat \<Rightarrow> bool" where
  "second_ok3 b0 b1 \<longleftrightarrow> is_cont b1 \<and> \<not> (if b1 < 0xA0 then b0 = 0xE0 else b0 = 0xED)"

definition second_ok4 :: "nat \<Rightarrow> nat \<Rightarrow> bool" where
  "second_ok4 b0 b1 \<longleftrightarrow> is_cont b1 \<and> \<not> (if b1 < 0x90 then b0 = 0xF0 else b0 = 0xF4)"

fun utf8_decode_replace :: "nat list \<Rightarrow> ustr" where
  "utf8_decode_replace [] = []"
| "utf8_decode_replace (b0 # bs) =
     (if b0 < 0x80 then b0 # utf8_decode_replace bs
      else if b0 < 0xC2 then 0xFFFD # utf8_decode_replace bs
      else if b0 < 0xE0 then
        (case bs of
           [] \<Rightarrow> [0xFFFD]
         | b1 # r1 \<Rightarrow>
             if is_cont b1 then ((b0 - 0xC0) * 64 + (b1 - 0x80)) # utf8_decode_replace r1
             else 0xFFFD # utf8_decode_replace bs)
      else if b0 < 0xF0 then
        (case bs of
           [] \<Rightarrow> [0xFFFD]
         | b1 # r1 \<Rightarrow>
             if \<not> second_ok3 b0 b1 then 0xFFFD # utf8_decode_replace bs
             else
               (case r1 of
                  [] \<Rightarrow> [0xFFFD]
                | b2 # r2 \<Rightarrow>
                    if is_cont b2
                    then ((b0 - 0xE0) * 4096 + (b1 - 0x80) * 64 + (b2 - 0x80))
                           # utf8_decode_replace r2
                    else 0xFFFD # utf8_decode_replace r1))
      else if b0 < 0xF5 then
        (case bs of
           [] \<Rightarrow> [0xFFFD]
         | b1 # r1 \<Rightarrow>
             if \<not> second_ok4 b0 b1 then 0xFFFD # utf8_decode_replace bs
             else
               (case r1 of
                  [] \<Rightarrow> [0xFFFD]
                | b2 # r2 \<Rightarrow>
                    if \<not> is_cont b2 then 0xFFFD # utf8_decode_replace r1
                    else
                      (case r2 of
                         [] \<Rightarrow> [0xFFFD]
                       | b3 # r3 \<Rightarrow>
                           if is_cont b3
                           then ((b0 - 0xF0) * 262144 + (b1 - 0x80) * 4096 + (b2 - 0x80) * 64
                                   + (b3 - 0x80)) # utf8_decode_replace r3
                           else 0xFFFD # utf8_decode_replace r2)))
      else 0xFFFD # utf8_decode_replace bs)"

declare utf8_decode_replace.simps(2) [simp del]

definition decode :: "bytes \<Rightarrow> ustr" where
  "decode bs = utf8_decode_replace (map of_char bs)"

text \<open>
  \<open>str.encode('utf-8')\<close>. It raises \<open>UnicodeEncodeError\<close> when the string holds a surrogate
  code point (U+D800..U+DFFF); \<open>encode_error_text\<close> is the text of that exception, which
  names the first run of surrogates.
\<close>

definition surrogate :: "nat \<Rightarrow> bool" where
  "surrogate c \<longleftrightarrow> 0xD800 \<le> c \<and> c < 0xE000"

definition encode_char :: "nat \<Rightarrow> bytes" where
  "encode_char c =
     (if c < 0x80 then [char_of c]
      else if c < 0x800 then [char_of (0xC0 + c div 64), char_of (0x80 + c mod 64)]
      else if c < 0x10000 then
        [char_of (0xE0 + c div 4096), char_of (0x80 + c div 64 mod 64), char_of (0x80 + c mod 64)]
      else
        [char_of (0xF0 + c div 262144), char_of (0x80 + c div 4096 mod 64),
         char_of (0x80 + c div 64 mod 64), char_of (0x80 + c mod 64)])"

definition hex_digit :: "nat \<Rightarrow> nat" where
  "hex_digit d = (if d < 10 then 48 + d else 87 + d)"

definition encode_error_text :: "ustr \<Rightarrow> ustr" where
  "encode_error_text s =
     (let p = length (takeWhile (\<lambda>c. \<not> surrogate c) s);
          run = takeWhile surrogate (drop p s)
      in if length run = 1 then
           [39] @ U ''utf-8'' @ [39] @ U '' codec can't encode character '' @ [39, 92] @ U ''u''
           @ map hex_digit
               [hd run div 4096 mod 16, hd run div 256 mod 16, hd run div 16 mod 16, hd run mod 16]
           @ [39] @ U '' in position '' @ str_nat p @ U '': surrogates not allowed''
         else
           [39] @ U ''utf-8'' @ [39] @ U '' codec can't encode characters in position ''
           @ str_nat p @ U ''-'' @ str_nat (p + length run - 1) @ U '': surrogates not allowed'')"

definition encode :: "ustr \<Rightarrow> exn + bytes" where
  "encode s =
     (if list_ex surrogate s then Inl (Exn UnicodeEncodeError (encode_error_text s))
      else Inr (concat (map encode_char s)))"

definition exn_text :: "exn \<Rightarrow> ustr" where
  "exn_text x = (case x of Exn k m \<Rightarrow> m)"

text \<open>
  \<open>str.strip()\<close> removes from both ends the characters for which \<open>str.isspace\<close> holds.
  \<open>split_crlf s\<close> is \<open>s.split('\r\n')\<close>, \<open>split_char c s\<close> is \<open>s.split(c)\<close> for a one-character
  separator, and \<open>join_crlf\<close> is \<open>'\r\n'.join\<close>. A split never returns the empty list.
\<close>

definition is_space :: "nat \<Rightarrow> bool" where
  "is_space c \<longleftrightarrow>
     (9 \<le> c \<and> c \<le> 13) \<or> (28 \<le> c \<and> c \<le> 32) \<or> c = 0x85 \<or> c = 0xA0 \<or> c = 0x1680
     \<or> (0x2000 \<le> c \<and> c \<le> 0x200A) \<or> c = 0x2028 \<or> c = 0x2029 \<or> c = 0x202F
     \<or> c = 0x205F \<or> c = 0x3000"

definition strip :: "ustr \<Rightarrow> ustr" where
  "strip s = rev (dropWhile is_space (rev (dropWhile is_space s)))"

definition prepend :: "nat \<Rightarrow> ustr list \<Rightarrow> ustr list" where
  "prepend c ls = (case ls of [] \<Rightarrow> [[c]] | l # ls' \<Rightarrow> (c # l) # ls')"

fun split_crlf :: "ustr \<Rightarrow> ustr list" where
  "split_crlf [] = [[]]"
| "split_crlf [c] = [[c]]"
| "split_crlf (c # d # r) =
     (if c = 13 \<and> d = 10 then [] # split_crlf r else prepend c (split_crlf (d # r)))"

fun split_char :: "nat \<Rightarrow> ustr \<Rightarrow> ustr list" where
  "split_char sep [] = [[]]"
| "split_char sep (c # cs) =
     (if c = sep then [] # split_char sep cs else prepend c (split_char sep cs))"

fun join_crlf :: "ustr list \<Rightarrow> ustr" where
  "join_crlf [] = []"
| "join_crlf [l] = l"
| "join_crlf (l # ls) = l @ CRLF @ join_crlf ls"

text \<open>
  \<open>method.upper()\<close> is only compared with \<open>'CONNECT'\<close>. The uppercase form of a character
  outside \<open>a..z\<close> always holds a character that is not a letter of \<open>CONNECT\<close>, so the
  comparison comes out the same when such characters are left as they are.
  \<open>header.lower()\<close> is applied to the header names of \<open>http.client\<close>, which are Latin-1
  text, one character for each byte.
\<close>

definition upper_ascii :: "nat \<Rightarrow> nat" where
  "upper_ascii c = (if 97 \<le> c \<and> c \<le> 122 then c - 32 else c)"

definition lower_latin1 :: "char \<Rightarrow> char" where
  "lower_latin1 c =
     (let n = of_char c :: nat
      in if (65 \<le> n \<and> n \<le> 90) \<or> (0xC0 \<le> n \<and> n \<le> 0xDE \<and> n \<noteq> 0xD7) then char_of (n + 32)
         else c)"

text \<open>
  The \<open>headers\<close> dict, in insertion order: an assignment to a key that is present replaces
  its value in place, \<open>pop(k, None)\<close> removes the key if it is there.
\<close>

fun dict_set :: "ustr \<Rightarrow> ustr \<Rightarrow> (ustr \<times> ustr) list \<Rightarrow> (ustr \<times> ustr) list" where
  "dict_set k v [] = [(k, v)]"
| "dict_set k v ((k', v') # d) = (if k' = k then (k, v) # d else (k', v') # dict_set k v d)"

definition dict_pop :: "ustr \<Rightarrow> (ustr \<times> ustr) list \<Rightarrow> (ustr \<times> ustr) list" where
  "dict_pop k d = filter (\<lambda>kv. fst kv \<noteq> k) d"

subsection \<open>The standard library around the processor\<close>

text \<open>
  \<open>urllib.parse.urlparse\<close> and the exchange with the origin (\<open>http.client\<close>) are not
  part of the repository: they are parameters of the model. \<open>urlparse\<close> returns the
  attributes that the processor reads, or raises; reading the \<open>port\<close> attribute may
  raise as well (\<open>ValueError\<close> for a port that is not a number in range).
  The origin answers an \<open>origin_request\<close> (the arguments of \<open>make_http_request\<close>) with a
  status, a reason, a header list and a body, or one of the failures that
  \<open>make_http_request\<close> tells apart. Reason and header texts are Latin-1, as \<open>http.client\<close>
  decodes them.
\<close>

record parsed_url =
  scheme :: ustr
  hostname :: "ustr option"
  port :: "exn + nat option"
  path :: ustr
  query :: ustr

record origin_request =
  req_method :: ustr
  req_host :: ustr
  req_port :: nat
  req_path :: ustr
  req_headers :: "(ustr \<times> ustr) list"
  req_body :: bytes
  req_use_ssl :: bool

datatype origin_failure =
  SocketTimeout | GaiError ustr | ConnectionRefused | SSLError ustr | OtherFailure ustr

datatype origin_result =
  Responded nat string "(string \<times> string) list" bytes | Raised origin_failure

record env =
  urlparse :: "ustr \<Rightarrow> exn + parsed_url"
  origin :: "origin_request \<Rightarrow> origin_result"

subsection \<open>The processor\<close>

text \<open>
  \<open>create_error_response\<close>: the status line, three headers, a blank line and a markup body,
  encoded as UTF-8. \<open>Content-Length\<close> is \<open>len(error_body)\<close>, a count of code points.
\<close>

definition create_error_response :: "nat \<Rightarrow> ustr \<Rightarrow> exn + bytes" where
  "create_error_response status_code reason =
     (let error_body =
            U ''<!DOCTYPE html>'' @ [10]
            @ U ''<html>'' @ [10]
            @ U ''<head><title>'' @ str_nat status_code @ U '' '' @ reason @ U ''</title></head>'' @ [10]
            @ U ''<body>'' @ [10]
            @ U ''<h1>'' @ str_nat status_code @ U '' '' @ reason @ U ''</h1>'' @ [10]
            @ U ''<p>The offshore proxy server encountered an error.</p>'' @ [10]
            @ U ''<hr>'' @ [10]
            @ U ''<p><em>Offshore Proxy Server</em></p>'' @ [10]
            @ U ''</body>'' @ [10]
            @ U ''</html>'';
          response =
            U ''HTTP/1.1 '' @ str_nat status_code @ U '' '' @ reason @ CRLF
            @ U ''Content-Type: text/html'' @ CRLF
            @ U ''Content-Length: '' @ str_nat (length error_body) @ CRLF
            @ U ''Connection: close'' @ CRLF
            @ CRLF @ error_body
      in encode response)"

text \<open>\<open>handle_connect_method\<close> ignores its arguments but for logging.\<close>

definition handle_connect_method :: "ustr \<Rightarrow> string \<Rightarrow> exn + bytes" where
  "handle_connect_method url connection_id =
     encode (U ''HTTP/1.1 200 Connection Established'' @ CRLF @ CRLF)"

text \<open>
  \<open>make_http_request\<close>. The \<open>try\<close> block builds the response from the origin's answer; an
  exception in it, here only a failing \<open>encode\<close>, reaches \<open>except Exception\<close>. Each
  \<open>except\<close> clause returns \<open>create_error_response\<close>, which may itself raise.
\<close>

definition make_http_request :: "env \<Rightarrow> origin_request \<Rightarrow> string \<Rightarrow> exn + bytes" where
  "make_http_request e req connection_id =
     (case origin e req of
        Responded status reason response_headers response_body \<Rightarrow>
          (let response_lines =
                 [U ''HTTP/1.1 '' @ str_nat status @ U '' '' @ U reason,
                  U ''Content-Length: '' @ str_nat (length response_body),
                  U ''Connection: close'']
                 @ map (\<lambda>hv. U (fst hv) @ U '': '' @ strip (U (snd hv)))
                     (filter (\<lambda>hv. map lower_latin1 (fst hv)
                                \<notin> {''connection'', ''transfer-encoding'', ''content-length''})
                        response_headers)
                 @ [[]];
               response_text = join_crlf response_lines
           in case encode response_text of
                Inr b \<Rightarrow> Inr (b @ response_body)
              | Inl x \<Rightarrow> create_error_response 502 (U ''Bad Gateway: '' @ exn_text x))
      | Raised SocketTimeout \<Rightarrow> create_error_response 504 (U ''Gateway Timeout'')
      | Raised (GaiError m) \<Rightarrow>
          create_error_response 502 (U ''Bad Gateway - DNS resolution failed: '' @ req_host req)
      | Raised ConnectionRefused \<Rightarrow>
          create_error_response 502
            (U ''Bad Gateway - Connection refused: '' @ req_host req @ U '':'' @ str_nat (req_port req))
      | Raised (SSLError m) \<Rightarrow> create_error_response 502 (U ''Bad Gateway - SSL error: '' @ m)
      | Raised (OtherFailure m) \<Rightarrow> create_error_response 502 (U ''Bad Gateway: '' @ m))"

text \<open>
  The header loop of \<open>process_http_request\<close> over \<open>enumerate(lines[1:], 1)\<close>: it stops at
  the first line that is empty once stripped, with \<open>body_start = i + 1\<close>; a line with a
  colon sets the header \<open>key.strip()\<close> to \<open>value.strip()\<close>, split at the first colon.
  The result is the headers and \<open>body_start\<close>, \<open>-1\<close> when the loop ran to the end.
\<close>

fun scan_headers ::
  "int \<Rightarrow> ustr list \<Rightarrow> (ustr \<times> ustr) list \<Rightarrow> (ustr \<times> ustr) list \<times> int" where
  "scan_headers i [] headers = (headers, -1)"
| "scan_headers i (line # later) headers =
     (if strip line = [] then (headers, i + 1)
      else scan_headers (i + 1) later
             (if 58 \<in> set line
              then dict_set (strip (takeWhile (\<lambda>c. c \<noteq> 58) line))
                     (strip (tl (dropWhile (\<lambda>c. c \<noteq> 58) line))) headers
              else headers))"

definition pop_proxy_headers :: "(ustr \<times> ustr) list \<Rightarrow> (ustr \<times> ustr) list" where
  "pop_proxy_headers headers =
     foldl (\<lambda>h k. dict_pop k h) headers
       [U ''proxy-connection'', U ''Proxy-Connection'', U ''PROXY-CONNECTION'', U ''proxy-connection'',
        U ''proxy-authorization'', U ''Proxy-Authorization'', U ''PROXY-AUTHORIZATION'',
        U ''proxy-authorization'']"

text \<open>
  \<open>parse_request\<close> is the \<open>try\<close> block of \<open>process_http_request\<close> up to the call of
  \<open>make_http_request\<close>: it raises, returns a response at once (\<open>Inr (Inl response)\<close>), or
  reaches the call with its arguments (\<open>Inr (Inr req)\<close>). \<open>forward\<close> is the part from
  \<open>urlparse(url)\<close> on, and \<open>extract_body\<close> the body taken from \<open>lines[body_start:]\<close>.
\<close>

definition early :: "exn + bytes \<Rightarrow> exn + (bytes + origin_request)" where
  "early r = (case r of Inl x \<Rightarrow> Inl x | Inr b \<Rightarrow> Inr (Inl b))"

definition extract_body :: "ustr list \<Rightarrow> exn + bytes" where
  "extract_body lines =
     (let body_start = snd (scan_headers 1 (tl lines) [])
      in if body_start > 0 \<and> drop (nat body_start) lines \<noteq> []
         then encode (join_crlf (drop (nat body_start) lines))
         else Inr [])"

definition forward ::
  "env \<Rightarrow> ustr list \<Rightarrow> ustr \<Rightarrow> ustr \<Rightarrow> exn + (bytes + origin_request)" where
  "forward e lines method url =
     (case urlparse e url of
        Inl x \<Rightarrow> Inl x
      | Inr parsed_url \<Rightarrow>
          (case hostname parsed_url of
             None \<Rightarrow> early (create_error_response 400 (U ''Bad Request - Invalid URL: '' @ url))
           | Some h \<Rightarrow>
               if h = [] then early (create_error_response 400 (U ''Bad Request - Invalid URL: '' @ url))
               else
                 (case port parsed_url of
                    Inl x \<Rightarrow> Inl x
                  | Inr po \<Rightarrow>
                      (let default_port = (if scheme parsed_url = U ''https'' then 443 else 80);
                           p = (case po of None \<Rightarrow> default_port
                                | Some n \<Rightarrow> if n = 0 then default_port else n);
                           pq = path parsed_url
                                @ (if query parsed_url \<noteq> [] then U ''?'' @ query parsed_url else []);
                           pq' = (if pq = [] then U ''/'' else pq)
                       in case extract_body lines of
                            Inl x \<Rightarrow> Inl x
                          | Inr body \<Rightarrow>
                              Inr (Inr \<lparr>req_method = method, req_host = h, req_port = p,
                                        req_path = pq',
                                        req_headers =
                                          pop_proxy_headers (fst (scan_headers 1 (tl lines) [])),
                                        req_body = body,
                                        req_use_ssl = (scheme parsed_url = U ''https'')\<rparr>)))))"

definition parse_request :: "env \<Rightarrow> bytes \<Rightarrow> string \<Rightarrow> exn + (bytes + origin_request)" where
  "parse_request e payload connection_id =
     (let request_str = decode payload;
          lines = split_crlf request_str
      in if lines = [] then early (create_error_response 400 (U ''Bad Request - Empty request''))
         else
           (let request_line = strip (hd lines)
            in if request_line = []
               then early (create_error_response 400 (U ''Bad Request - Empty request line''))
               else
                 (case split_char 32 request_line of
                    [method, url, version] \<Rightarrow>
                      if map upper_ascii method = U ''CONNECT''
                      then early (handle_connect_method url connection_id)
                      else if \<not> prefix (U ''http://'') url \<and> \<not> prefix (U ''https://'') url
                      then
                        if prefix (U ''/'') url
                        then early (create_error_response 400
                               (U ''Bad Request - This is a proxy server. Configure your browser to use http://localhost:8080 as HTTP/HTTPS proxy, or use curl -x http://localhost:8080 <URL>''))
                        else forward e lines method (U ''http://'' @ url)
                      else forward e lines method url
                  | parts \<Rightarrow>
                      early (create_error_response 400
                               (U ''Bad Request - Invalid request line: '' @ request_line)))))"

text \<open>
  \<open>process_http_request\<close>: the \<open>try\<close> block and its two handlers. A handler returns
  \<open>create_error_response\<close>; an exception raised there leaves the function.
\<close>

definition process_http_request :: "env \<Rightarrow> bytes \<Rightarrow> string \<Rightarrow> exn + bytes" where
  "process_http_request e payload connection_id =
     (case (case parse_request e payload connection_id of
              Inl x \<Rightarrow> Inl x
            | Inr (Inl response) \<Rightarrow> Inr response
            | Inr (Inr req) \<Rightarrow> make_http_request e req connection_id)
      of Inr response \<Rightarrow> Inr response
       | Inl (Exn UnicodeDecodeError m) \<Rightarrow>
           create_error_response 400 (U ''Bad Request - Invalid encoding'')
       | Inl (Exn k m) \<Rightarrow> create_error_response 500 (U ''Internal Server Error: '' @ m))"

subsection \<open>Notions used in the statements\<close>

text \<open>
  A string is \<open>clean\<close> when it holds no surrogate code point, so that it can be encoded.
  \<open>env_ok\<close> is what the statements ask of \<open>urlparse\<close>: the text of an exception raised for
  a clean URL, by \<open>urlparse\<close> or by the \<open>port\<close> attribute of its result, is clean.
\<close>

definition clean :: "ustr \<Rightarrow> bool" where
  "clean s \<longleftrightarrow> (\<forall>c \<in> set s. \<not> surrogate c)"


definition token :: "bytes \<Rightarrow> bool" where
  "token t \<longleftrightarrow> t \<noteq> [] \<and> (\<forall>c \<in> set t. 0x21 \<le> (of_char c :: nat) \<and> (of_char c :: nat) \<le> 0x7E)"

text \<open>
  \<open>bytes_after_header payload\<close> is everything after the first \<open>CRLF CRLF\<close> of the payload,
  \<open>None\<close> when the payload has none.
\<close>

fun after_blank :: "'a \<Rightarrow> 'a \<Rightarrow> 'a list \<Rightarrow> 'a list option" where
  "after_blank cr lf (a # b # c # d # r) =
     (if a = cr \<and> b = lf \<and> c = cr \<and> d = lf then Some r else after_blank cr lf (b # c # d # r))"
| "after_blank cr lf xs = None"

definition bytes_after_header :: "bytes \<Rightarrow> bytes option" where
  "bytes_after_header payload = after_blank (CHR 0x0D) (CHR 0x0A) payload"

definition example_env :: env where
  "example_env =
     \<lparr>urlparse = (\<lambda>u. if u = U ''http://x/y''
                       then Inr \<lparr>scheme = U ''http'', hostname = Some (U ''x''), port = Inr None,
                                 path = U ''/y'', query = []\<rparr>
                       else Inl (Exn ValueError (U ''Invalid IPv6 URL''))),
      origin = (\<lambda>r. Raised SocketTimeout)\<rparr>"

text \<open>
  Two environments to run the processor in. In \<open>example_env\<close>, \<open>urlparse\<close> knows the URL
  \<open>http://x/y\<close> alone; in \<open>failing_env\<close> it always raises. In both the origin times out.
\<close>

definition failing_env :: env where
  "failing_env = \<lparr>urlparse = (\<lambda>u. Inl (Exn ValueError (U ''Invalid IPv6 URL''))),
                   origin = (\<lambda>r. Raised SocketTimeout)\<rparr>"

text \<open>Abbreviations for the proofs.\<close>

definition CONNECT_REPLY :: bytes where
  "CONNECT_REPLY = ''HTTP/1.1 200 Connection Established'' @ [CHR 0x0D, CHR 0x0A, CHR 0x0D, CHR 0x0A]"

definition decode_step_ok :: "nat \<Rightarrow> nat list \<Rightarrow> nat \<Rightarrow> nat \<Rightarrow> bool" where
  "decode_step_ok b0 bs c k \<longleftrightarrow>
     utf8_decode_replace (b0 # bs) = c # utf8_decode_replace (drop k bs)
     \<and> (if b0 < 128 then c = b0 \<and> k = 0
         else 128 \<le> c \<and> \<not> surrogate c \<and> (\<forall>x \<in> set (take k bs). 128 \<le> x))"


definition encode_failure :: "exn + bytes \<Rightarrow> bool" where
  "encode_failure r \<longleftrightarrow> (\<exists>m. r = Inl (Exn UnicodeEncodeError m) \<and> clean m)"


definition body_text :: "ustr list \<Rightarrow> ustr option" where
  "body_text ls =
     (case dropWhile (\<lambda>l. l \<noteq> []) ls of
        [] \<Rightarrow> None
      | e # rest \<Rightarrow> if rest = [] then None else Some (join_crlf rest))"

section \<open>Facts about the frame codec\<close>

lemma avail_nonempty_cases:
  "avail evs \<noteq> [] \<Longrightarrow> \<exists>bs evs0. evs = Data bs # evs0 \<and> bs \<noteq> []"
  by (cases evs rule: avail.cases) (auto split: if_splits)

lemma read_exact_loop_enough:
  "num_bytes - length buf \<le> length (avail evs) \<Longrightarrow>
   \<exists>evs'. read_exact_loop evs num_bytes buf
            = (Some (buf @ take (num_bytes - length buf) (avail evs)), evs')
        \<and> avail evs' = drop (num_bytes - length buf) (avail evs)"
proof (induction evs num_bytes buf rule: read_exact_loop.induct)
  case (1 evs num_bytes buf)
  show ?case
  proof (cases "length buf < num_bytes")
    case False
    then show ?thesis by (subst read_exact_loop.simps) simp
  next
    case True
    let ?k = "num_bytes - length buf"
    from True "1.prems" have "avail evs \<noteq> []" by auto
    then obtain bs evs0 where evs: "evs = Data bs # evs0" and bs: "bs \<noteq> []"
      using avail_nonempty_cases by blast
    show ?thesis
    proof (cases "length bs \<le> ?k")
      case le: True
      have r: "recv evs ?k = (Got bs, evs0)" using evs le by simp
      have "num_bytes - length (buf @ bs) \<le> length (avail evs0)"
        using "1.prems" evs bs le by simp
      with "1.IH" [of bs] True r bs
      obtain evs' where
        "read_exact_loop evs0 num_bytes (buf @ bs)
           = (Some ((buf @ bs) @ take (num_bytes - length (buf @ bs)) (avail evs0)), evs')"
        "avail evs' = drop (num_bytes - length (buf @ bs)) (avail evs0)"
        by auto
      moreover have "read_exact_loop evs num_bytes buf
          = read_exact_loop evs0 num_bytes (buf @ bs)"
        using True r bs by (subst read_exact_loop.simps) simp
      ultimately show ?thesis
        using evs le bs by simp
    next
      case gt: False
      have r: "recv evs ?k = (Got (take ?k bs), Data (drop ?k bs) # evs0)"
        using evs gt by simp
      have ne: "take ?k bs \<noteq> []" using True bs by (cases bs) auto
      have fin: "\<not> length (buf @ take ?k bs) < num_bytes" using gt by simp
      have "read_exact_loop (Data (drop ?k bs) # evs0) num_bytes (buf @ take ?k bs)
              = (Some (buf @ take ?k bs), Data (drop ?k bs) # evs0)"
        using fin by (subst read_exact_loop.simps) simp
      moreover have "read_exact_loop evs num_bytes buf
          = read_exact_loop (Data (drop ?k bs) # evs0) num_bytes (buf @ take ?k bs)"
        using True r ne by (subst read_exact_loop.simps) simp
      ultimately show ?thesis
        using evs gt bs by simp
    qed
  qed
qed

lemma read_exact_loop_short:
  "length (avail evs) < num_bytes - length buf \<Longrightarrow>
   fst (read_exact_loop evs num_bytes buf) = None"
proof (induction evs num_bytes buf rule: read_exact_loop.induct)
  case (1 evs num_bytes buf)
  from "1.prems" have lt: "length buf < num_bytes" by simp
  let ?k = "num_bytes - length buf"
  show ?case
  proof (cases "avail evs = []")
    case True
    then have "fst (recv evs ?k) = Got [] \<or> fst (recv evs ?k) = RaisedTimeout
        \<or> fst (recv evs ?k) = RaisedError"
      using lt by (cases evs rule: avail.cases) (auto split: if_splits)
    then show ?thesis
      using lt by (subst read_exact_loop.simps) auto
  next
    case False
    then obtain bs evs0 where evs: "evs = Data bs # evs0" and bs: "bs \<noteq> []"
      using avail_nonempty_cases by blast
    have le: "length bs \<le> ?k" using "1.prems" evs bs by simp
    have r: "recv evs ?k = (Got bs, evs0)" using evs le by simp
    have "length (avail evs0) < num_bytes - length (buf @ bs)"
      using "1.prems" evs bs by simp
    with "1.IH" [of bs] lt r bs
    have "fst (read_exact_loop evs0 num_bytes (buf @ bs)) = None" by simp
    moreover have "read_exact_loop evs num_bytes buf
        = read_exact_loop evs0 num_bytes (buf @ bs)"
      using lt r bs by (subst read_exact_loop.simps) simp
    ultimately show ?thesis by simp
  qed
qed

lemma read_exact_enough:
  assumes "n \<le> length (avail evs)"
  shows "\<exists>evs'. read_exact evs n = (Some (take n (avail evs)), evs')
           \<and> avail evs' = drop n (avail evs)"
  using read_exact_loop_enough [of n "[]" evs] assms by (simp add: read_exact_def)

lemma read_exact_short:
  assumes "length (avail evs) < n"
  shows "fst (read_exact evs n) = None"
  using read_exact_loop_short [of evs n "[]"] assms by (simp add: read_exact_def)

lemma unpack_pack_I:
  assumes "pack_I n = Some h"
  shows "unpack_I h = n" and "length h = 4"
proof -
  from assms have n: "n < 2 ^ 32"
    and h: "h = [char_of (n div 2 ^ 24), char_of (n div 2 ^ 16), char_of (n div 2 ^ 8), char_of n]"
    by (auto simp: pack_I_def split: if_splits)
  show "length h = 4" using h by simp
  have "unpack_I h = (n div 16777216 mod 256) * 16777216 + (n div 65536 mod 256) * 65536
      + (n div 256 mod 256) * 256 + n mod 256"
    using h by (simp add: unpack_I_def)
  also have "\<dots> = n"
  proof -
    have d2: "n div 65536 = n div 256 div 256" and d3: "n div 16777216 = n div 256 div 256 div 256"
      by (simp_all add: div_mult2_eq [symmetric])
    have s3: "n div 256 div 256 div 256 mod 256 = n div 256 div 256 div 256"
      using n by (simp add: div_mult2_eq [symmetric])
    have e1: "n = n div 256 * 256 + n mod 256" by simp
    have e2: "n div 256 = n div 256 div 256 * 256 + n div 256 mod 256" by simp
    have e3: "n div 256 div 256 = n div 256 div 256 div 256 * 256 + n div 256 div 256 mod 256"
      by simp
    show ?thesis
      unfolding d2 d3 s3 using e1 e2 e3 by linarith
  qed
  finally show "unpack_I h = n" .
qed

lemma unpack_pack_B:
  assumes "pack_B t = Some h"
  shows "unpack_B h = t" and "length h = 1"
  using assms by (auto simp: pack_B_def unpack_B_def split: if_splits)

lemma frame_parts:
  assumes "frame t p = Some f"
  shows "length f = 5 + length p" and "unpack_I (take 4 f) = length p"
    and "of_char (f ! 4) = t" and "drop 5 f = p"
proof -
  from assms obtain hl ht where hl: "pack_I (length p) = Some hl" and ht: "pack_B t = Some ht"
    and f: "f = (hl @ ht) @ p"
    by (auto simp: frame_def split: option.splits)
  note l = unpack_pack_I [OF hl] unpack_pack_B [OF ht]
  show "length f = 5 + length p" using f l by simp
  show "unpack_I (take 4 f) = length p" using f l by simp
  show "drop 5 f = p" using f l by simp
  have "f ! 4 = ht ! 0" using f l by (simp add: nth_append)
  then show "of_char (f ! 4) = t" using l(3) by (simp add: unpack_B_def)
qed

lemma read_message_enough:
  assumes "5 \<le> length (avail evs)" and "5 + unpack_I (take 4 (avail evs)) \<le> length (avail evs)"
  shows "\<exists>evs'. read_message evs
            = ((Some (of_char (avail evs ! 4)),
                Some (take (unpack_I (take 4 (avail evs))) (drop 5 (avail evs)))), evs')
          \<and> avail evs' = drop (5 + unpack_I (take 4 (avail evs))) (avail evs)"
proof -
  let ?a = "avail evs" and ?n = "unpack_I (take 4 (avail evs))"
  from read_exact_enough [of 5 evs] assms(1)
  obtain evs1 where h: "read_exact evs 5 = (Some (take 5 ?a), evs1)"
    and a1: "avail evs1 = drop 5 ?a"
    by auto
  have t4: "take 4 (take 5 ?a) = take 4 ?a" by simp
  have ty: "unpack_B (take 1 (drop 4 (take 5 ?a))) = of_char (?a ! 4)"
    using assms(1) by (simp add: unpack_B_def drop_take hd_drop_conv_nth take_Suc)
  have "?n \<le> length (avail evs1)" using assms(2) a1 by simp
  from read_exact_enough [OF this] a1
  obtain evs2 where p: "read_exact evs1 ?n = (Some (take ?n (drop 5 ?a)), evs2)"
    and a2: "avail evs2 = drop ?n (drop 5 ?a)"
    by auto
  have ne: "take 5 ?a \<noteq> []" using assms(1) by auto
  have "read_message evs = ((Some (of_char (?a ! 4)), Some (take ?n (drop 5 ?a))), evs2)"
    using h p ne t4 ty by (simp add: read_message_def Let_def)
  moreover have "avail evs2 = drop (5 + ?n) ?a" using a2 by (simp add: add.commute)
  ultimately show ?thesis by blast
qed

lemma read_message_short_header:
  assumes "length (avail evs) < 5"
  shows "fst (read_message evs) = (None, None)"
proof -
  from read_exact_short [of evs 5] assms
  have "fst (read_exact evs 5) = None" by simp
  then show ?thesis by (cases "read_exact evs 5") (simp add: read_message_def)
qed

lemma read_message_short_payload:
  assumes "5 \<le> length (avail evs)" and "length (avail evs) < 5 + unpack_I (take 4 (avail evs))"
  shows "fst (read_message evs) = (None, None)"
proof -
  let ?a = "avail evs" and ?n = "unpack_I (take 4 (avail evs))"
  from read_exact_enough [of 5 evs] assms(1)
  obtain evs1 where h: "read_exact evs 5 = (Some (take 5 ?a), evs1)"
    and a1: "avail evs1 = drop 5 ?a"
    by auto
  have t4: "take 4 (take 5 ?a) = take 4 ?a" by simp
  have "length (avail evs1) < ?n" using assms a1 by simp
  from read_exact_short [OF this]
  have "fst (read_exact evs1 ?n) = None" .
  moreover have ne: "take 5 ?a \<noteq> []" using assms(1) by auto
  ultimately show ?thesis
    using h t4 by (cases "read_exact evs1 ?n") (simp add: read_message_def Let_def)
qed

lemma read_message_frame:
  assumes "frame t p = Some f" and "avail evs = f @ rest"
  shows "\<exists>evs'. read_message evs = ((Some t, Some p), evs') \<and> avail evs' = rest"
proof -
  note fp = frame_parts [OF assms(1)]
  have t4: "take 4 (avail evs) = take 4 f" using assms(2) fp(1) by simp
  have n: "unpack_I (take 4 (avail evs)) = length p" using t4 fp(2) by simp
  have b4: "avail evs ! 4 = f ! 4" using assms(2) fp(1) by (simp add: nth_append)
  have d5: "drop 5 (avail evs) = p @ rest" using assms(2) fp(1,4) by simp
  from read_message_enough [of evs] n assms(2) fp(1)
  obtain evs' where "read_message evs
       = ((Some (of_char (avail evs ! 4)), Some (take (length p) (drop 5 (avail evs)))), evs')"
    and "avail evs' = drop (5 + length p) (avail evs)"
    by auto
  then show ?thesis using b4 d5 fp(1,3) assms(2) by simp
qed

text \<open>
  C2 (framing round trip). For every payload of at most 64 MiB and both message types:
  \<open>send_message\<close> on a socket that accepts the write returns \<open>True\<close>, and
  \<open>read_message\<close> on any stream that delivers the bytes written, however they are
  segmented and whatever follows them, returns exactly the type and the payload.
\<close>

theorem framing_round_trip:
  assumes "length p \<le> 64 * 2 ^ 20"
    and "t = MSG_REQUEST \<or> t = MSG_RESPONSE"
    and "send_script sock = SendOk # later"
    and "avail evs = fst (send_message sock t p) @ rest"
  shows "fst (snd (send_message sock t p)) \<and> fst (read_message evs) = (Some t, Some p)"
proof -
  have "length p < 2 ^ 32" using assms(1) by simp
  moreover have "0 \<le> t \<and> t < 256" using assms(2) by (auto simp: MSG_REQUEST_def MSG_RESPONSE_def)
  ultimately obtain f where f: "frame t p = Some f"
    by (auto simp: frame_def pack_I_def pack_B_def)
  have s: "send_message sock t p = (f, True, sock\<lparr>send_script := later\<rparr>)"
    using f assms(3) by (simp add: send_message_def)
  have "avail evs = f @ rest" using assms(4) s by simp
  from read_message_frame [OF f this] s show ?thesis by auto
qed

theorem framing_round_trip_witness:
  "length ''hi'' \<le> 64 * 2 ^ 20
   \<and> (MSG_RESPONSE = MSG_REQUEST \<or> MSG_RESPONSE = MSG_RESPONSE)
   \<and> fst (send_message \<lparr>sock_id = 0, recv_script = [], send_script = [SendOk]\<rparr> MSG_RESPONSE ''hi'')
       = [CHR 0x00, CHR 0x00, CHR 0x00, CHR 0x02, CHR 0x01, CHR ''h'', CHR ''i'']
   \<and> fst (snd (send_message \<lparr>sock_id = 0, recv_script = [], send_script = [SendOk]\<rparr>
         MSG_RESPONSE ''hi''))
   \<and> fst (read_message
         [Data [CHR 0x00, CHR 0x00, CHR 0x00], Data [CHR 0x02, CHR 0x01, CHR ''h''], Data ''i'', Eof])
       = (Some MSG_RESPONSE, Some ''hi'')"
proof -
  let ?s = "\<lparr>sock_id = 0, recv_script = [], send_script = [SendOk]\<rparr>"
  let ?evs = "[Data [CHR 0x00, CHR 0x00, CHR 0x00], Data [CHR 0x02, CHR 0x01, CHR ''h''], Data ''i'', Eof]"
  have w: "fst (send_message ?s MSG_RESPONSE ''hi'')
      = [CHR 0x00, CHR 0x00, CHR 0x00, CHR 0x02, CHR 0x01, CHR ''h'', CHR ''i'']"
    by (simp add: send_message_def frame_def pack_I_def pack_B_def MSG_RESPONSE_def
        char_of_eq_iff take_bit_eq_mod)
  have a: "avail ?evs = fst (send_message ?s MSG_RESPONSE ''hi'') @ []"
    by (simp add: w)
  have l: "length ''hi'' \<le> 64 * 2 ^ 20" by simp
  have t: "MSG_RESPONSE = MSG_REQUEST \<or> MSG_RESPONSE = MSG_RESPONSE" by simp
  have o: "send_script ?s = SendOk # []" by simp
  from framing_round_trip [OF l t o a] w show ?thesis by simp
qed

text \<open>
  C4, as stated: \<open>read_message\<close> rejects a frame whose payload length exceeds 64 MiB.
  It does not: a frame carrying a payload of 65 MiB (68157440 bytes, length field
  \<open>04 10 00 00\<close>) is read in full and returned.
\<close>

theorem oversized_frame_counterexample:
  "64 * 2 ^ 20 < length (replicate 68157440 (CHR ''x''))
   \<and> fst (read_message
         [Data (CHR 0x04 # CHR 0x10 # CHR 0x00 # CHR 0x00 # CHR 0x01 # replicate 68157440 (CHR ''x''))])
       = (Some 1, Some (replicate 68157440 (CHR ''x'')))"
proof -
  let ?p = "replicate 68157440 (CHR ''x'')"
  let ?f = "CHR 0x04 # CHR 0x10 # CHR 0x00 # CHR 0x00 # CHR 0x01 # ?p"
  have f: "frame 1 ?p = Some ?f"
    by (simp add: frame_def pack_I_def pack_B_def char_of_eq_iff take_bit_eq_mod)
  have "avail [Data ?f] = ?f @ []" by simp
  from read_message_frame [OF f this] show ?thesis by auto
qed

text \<open>
  C4, amended: \<open>read_message\<close> compares the decoded payload length with no maximum.
  A frame whose payload is longer than 64 MiB (and that \<open>send_message\<close> can build at
  all, so shorter than \<open>2^32\<close> bytes) is read in full and returned as type and payload
  once its bytes have arrived; the bytes after it stay in the stream.
\<close>

theorem read_message_no_length_limit:
  assumes "64 * 2 ^ 20 < length p"
    and "frame t p = Some f"
    and "avail evs = f @ rest"
  shows "fst (read_message evs) = (Some t, Some p) \<and> avail (snd (read_message evs)) = rest"
  using read_message_frame [OF assms(2,3)] by auto

theorem read_message_no_length_limit_witness:
  "64 * 2 ^ 20 < length (replicate 70000000 (CHR ''y''))
   \<and> frame 0 (replicate 70000000 (CHR ''y''))
       = Some (CHR 0x04 # CHR 0x2C # CHR 0x1D # CHR 0x80 # CHR 0x00 # replicate 70000000 (CHR ''y''))
   \<and> fst (read_message
         [Data (CHR 0x04 # CHR 0x2C # CHR 0x1D # CHR 0x80 # CHR 0x00 # replicate 70000000 (CHR ''y''))])
       = (Some 0, Some (replicate 70000000 (CHR ''y'')))"
proof -
  let ?p = "replicate 70000000 (CHR ''y'')"
  let ?f = "CHR 0x04 # CHR 0x2C # CHR 0x1D # CHR 0x80 # CHR 0x00 # ?p"
  have f: "frame 0 ?p = Some ?f"
    by (simp add: frame_def pack_I_def pack_B_def char_of_eq_iff take_bit_eq_mod)
  have l: "64 * 2 ^ 20 < length ?p" by simp
  have a: "avail [Data ?f] = ?f @ []" by simp
  from read_message_no_length_limit [OF l f a] f show ?thesis by simp
qed

text \<open>
  C10. \<open>read_message\<close> is a total function whose result depends only on the bytes the
  stream delivers before it first closes, times out or fails. With fewer than 5 such
  bytes, or fewer than the header announces, the result is \<open>(None, None)\<close>, the same
  value whichever of the three ended the stream; otherwise it is the fifth byte, read
  as a number and compared with nothing, and the payload.
\<close>

theorem read_message_collapses_failures:
  "fst (read_message evs) =
     (if length (avail evs) < 5 \<or> length (avail evs) < 5 + unpack_I (take 4 (avail evs))
      then (None, None)
      else (Some (of_char (avail evs ! 4)),
            Some (take (unpack_I (take 4 (avail evs))) (drop 5 (avail evs)))))"
proof (cases "length (avail evs) < 5")
  case True
  then show ?thesis using read_message_short_header [of evs] by simp
next
  case False
  show ?thesis
  proof (cases "length (avail evs) < 5 + unpack_I (take 4 (avail evs))")
    case True
    then show ?thesis using False read_message_short_payload [of evs] by simp
  next
    case enough: False
    with False read_message_enough [of evs] show ?thesis by auto
  qed
qed

section \<open>Facts about the link\<close>

lemma dials_append: "dials (xs @ ys) = dials xs + dials ys"
  by (induction xs rule: dials.induct) auto

lemma upt5: "[0..<5] = [0, 1, 2, 3, 4]"
  by (simp add: upt_rec)

lemma connect_attempts_dials:
  "dials (trace (snd (snd (connect_attempts as c w)))) \<le> dials (trace w) + length as"
proof (induction as arbitrary: c w)
  case Nil
  then show ?case by simp
next
  case (Cons a as)
  show ?case
  proof (cases "create_tcp_connection w")
    case (Pair r w1)
    have d: "dials (trace w1) = Suc (dials (trace w))"
      using Pair by (auto simp: create_tcp_connection_def emit_def dials_append split: list.splits)
    show ?thesis
    proof (cases r)
      case None
      define w2 where "w2 = (if int a < int (max_reconnect_attempts c) - 1
             then emit (Slept (min (2 ^ a) 10)) w1 else w1)"
      have d2: "dials (trace w2) = dials (trace w1)"
        by (simp add: w2_def emit_def dials_append)
      have "dials (trace (snd (snd (connect_attempts as (c\<lparr>offshore_socket := None\<rparr>) w2))))
        \<le> dials (trace w2) + length as"
        by (rule Cons.IH)
      moreover have "connect_attempts (a # as) c w
          = connect_attempts as (c\<lparr>offshore_socket := None\<rparr>) w2"
        using Pair None by (simp add: w2_def)
      ultimately show ?thesis using d d2 by simp
    next
      case (Some s)
      then show ?thesis using Pair d by simp
    qed
  qed
qed

lemma connect_success:
  assumes "max_reconnect_attempts c = 5" and "j < 5"
    and "dial_script w = replicate j None @ Some s # rest"
  shows "connect_to_offshore c w =
      (True, c\<lparr>offshore_socket := Some s, reconnect_attempts := 0\<rparr>,
       w\<lparr>dial_script := rest,
         trace := trace w @ concat (map (\<lambda>a. [Dialed None, Slept (min (2 ^ a) 10)]) [0..<j])
                  @ [Dialed (Some (sock_id s))]\<rparr>)"
proof -
  from assms(2) consider "j = 0" | "j = 1" | "j = 2" | "j = 3" | "j = 4" by linarith
  then show ?thesis
  proof cases
    case 1
    then show ?thesis using assms(1,3)
      by (simp add: connect_to_offshore_def upt5 create_tcp_connection_def emit_def)
  next
    case 2
    then show ?thesis using assms(1,3)
      by (simp add: connect_to_offshore_def upt5 create_tcp_connection_def emit_def)
  next
    case 3
    then show ?thesis using assms(1,3)
      by (simp add: connect_to_offshore_def upt5 create_tcp_connection_def emit_def
          numeral_2_eq_2 upt_rec)
  next
    case 4
    then show ?thesis using assms(1,3)
      by (simp add: connect_to_offshore_def upt5 create_tcp_connection_def emit_def
          numeral_3_eq_3 upt_rec)
  next
    case 5
    then show ?thesis using assms(1,3)
      by (simp add: connect_to_offshore_def upt5 create_tcp_connection_def emit_def
          eval_nat_numeral upt_rec)
  qed
qed

lemma connect_attempts_all_fail:
  "set (take (length as) (dial_script w)) \<subseteq> {None} \<Longrightarrow>
   connect_attempts as c w =
     (False, (if as = [] then c else c\<lparr>offshore_socket := None\<rparr>),
      w\<lparr>dial_script := drop (length as) (dial_script w),
        trace := trace w @ concat (map (\<lambda>a. Dialed None #
                   (if int a < int (max_reconnect_attempts c) - 1
                    then [Slept (min (2 ^ a) 10)] else [])) as)\<rparr>)"
proof (induction as arbitrary: c w)
  case Nil
  then show ?case by simp
next
  case (Cons a as)
  define w2 where "w2 = (if int a < int (max_reconnect_attempts c) - 1
      then emit (Slept (min (2 ^ a) 10)) (snd (create_tcp_connection w))
      else snd (create_tcp_connection w))"
  have r: "fst (create_tcp_connection w) = None"
    using Cons.prems by (auto simp: create_tcp_connection_def split: list.splits)
  have ds: "dial_script w2 = tl (dial_script w)"
    by (auto simp: w2_def create_tcp_connection_def emit_def split: list.splits)
  have tr: "trace w2 = trace w @ Dialed None #
       (if int a < int (max_reconnect_attempts c) - 1 then [Slept (min (2 ^ a) 10)] else [])"
    using Cons.prems by (auto simp: w2_def create_tcp_connection_def emit_def split: list.splits)
  have step: "connect_attempts (a # as) c w
      = connect_attempts as (c\<lparr>offshore_socket := None\<rparr>) w2"
    using r by (cases "create_tcp_connection w") (simp add: w2_def)
  have "set (take (length as) (dial_script w2)) \<subseteq> {None}"
    using Cons.prems ds by (cases "dial_script w") auto
  from Cons.IH [OF this, of "c\<lparr>offshore_socket := None\<rparr>"]
  have "connect_attempts as (c\<lparr>offshore_socket := None\<rparr>) w2 =
     (False, c\<lparr>offshore_socket := None\<rparr>,
      w2\<lparr>dial_script := drop (length as) (dial_script w2),
        trace := trace w2 @ concat (map (\<lambda>a. Dialed None #
                   (if int a < int (max_reconnect_attempts c) - 1
                    then [Slept (min (2 ^ a) 10)] else [])) as)\<rparr>)"
    by (simp split: if_splits)
  moreover have "w2\<lparr>dial_script := d, trace := t\<rparr> = w\<lparr>dial_script := d, trace := t\<rparr>" for d t
    by (auto simp: w2_def create_tcp_connection_def emit_def split: list.splits)
  ultimately show ?case
    using step ds tr by (simp add: drop_Suc)
qed

lemma connect_failure:
  assumes "max_reconnect_attempts c = 5"
    and "set (take 5 (dial_script w)) \<subseteq> {None}"
  shows "connect_to_offshore c w =
      (False, c\<lparr>offshore_socket := None\<rparr>,
       w\<lparr>dial_script := drop 5 (dial_script w),
         trace := trace w @ [Dialed None, Slept 1, Dialed None, Slept 2, Dialed None, Slept 4,
                             Dialed None, Slept 8, Dialed None]\<rparr>)"
proof -
  have "set (take (length [0..<5]) (dial_script w)) \<subseteq> {None}" using assms(2) by simp
  from connect_attempts_all_fail [OF this, of c]
  have "connect_attempts [0..<5] c w =
     (False, c\<lparr>offshore_socket := None\<rparr>,
      w\<lparr>dial_script := drop 5 (dial_script w),
        trace := trace w @ concat (map (\<lambda>a. Dialed None #
                   (if int a < int (max_reconnect_attempts c) - 1
                    then [Slept (min (2 ^ a) 10)] else [])) [0..<5])\<rparr>)"
    by simp
  moreover have "concat (map (\<lambda>a. Dialed None #
                   (if int a < int (max_reconnect_attempts c) - 1
                    then [Slept (min (2 ^ a) 10)] else [])) [0..<5])
     = [Dialed None, Slept 1, Dialed None, Slept 2, Dialed None, Slept 4,
        Dialed None, Slept 8, Dialed None]"
    using assms(1) by (simp add: upt5)
  ultimately show ?thesis
    by (simp only: connect_to_offshore_def assms(1))
qed

text \<open>
  C7. With \<open>max_reconnect_attempts = 5\<close>, \<open>connect_to_offshore\<close> dials at most five
  times. When the dial of attempt \<open>j < 5\<close> is the first to succeed, it returns \<open>True\<close>,
  has slept \<open>min(2^a, 10)\<close> seconds after each failed attempt \<open>a = 0..j-1\<close>, holds
  the new socket and has reset \<open>reconnect_attempts\<close> to zero. When the first five dials
  all fail it returns \<open>False\<close> after five dials and the waits 1, 2, 4, 8 between them.
\<close>

theorem connect_to_offshore_schedule:
  assumes "max_reconnect_attempts c = 5"
  shows "dials (trace (snd (snd (connect_to_offshore c w)))) \<le> dials (trace w) + 5
    \<and> (\<forall>j s rest. j < 5 \<and> dial_script w = replicate j None @ Some s # rest \<longrightarrow>
          connect_to_offshore c w =
            (True, c\<lparr>offshore_socket := Some s, reconnect_attempts := 0\<rparr>,
             w\<lparr>dial_script := rest,
               trace := trace w
                 @ concat (map (\<lambda>a. [Dialed None, Slept (min (2 ^ a) 10)]) [0..<j])
                 @ [Dialed (Some (sock_id s))]\<rparr>))
    \<and> (set (take 5 (dial_script w)) \<subseteq> {None} \<longrightarrow>
          connect_to_offshore c w =
            (False, c\<lparr>offshore_socket := None\<rparr>,
             w\<lparr>dial_script := drop 5 (dial_script w),
               trace := trace w @ [Dialed None, Slept 1, Dialed None, Slept 2, Dialed None,
                                   Slept 4, Dialed None, Slept 8, Dialed None]\<rparr>))"
proof -
  have "dials (trace (snd (snd (connect_to_offshore c w)))) \<le> dials (trace w) + 5"
    using connect_attempts_dials [of "[0..<5]" c w] assms
    by (simp add: connect_to_offshore_def)
  then show ?thesis
    using connect_success [OF assms] connect_failure [OF assms] by blast
qed

theorem connect_to_offshore_schedule_witness:
  "max_reconnect_attempts init_client = 5
   \<and> connect_to_offshore init_client
        \<lparr>dial_script = [None, None, Some \<lparr>sock_id = 7, recv_script = [], send_script = []\<rparr>],
         trace = []\<rparr>
       = (True,
          init_client\<lparr>offshore_socket := Some \<lparr>sock_id = 7, recv_script = [], send_script = []\<rparr>,
                      reconnect_attempts := 0\<rparr>,
          \<lparr>dial_script = [],
           trace = [Dialed None, Slept 1, Dialed None, Slept 2, Dialed (Some 7)]\<rparr>)
   \<and> connect_to_offshore init_client \<lparr>dial_script = [], trace = []\<rparr>
       = (False, init_client\<lparr>offshore_socket := None\<rparr>,
          \<lparr>dial_script = [],
           trace = [Dialed None, Slept 1, Dialed None, Slept 2, Dialed None, Slept 4,
                    Dialed None, Slept 8, Dialed None]\<rparr>)"
proof -
  let ?s = "\<lparr>sock_id = 7, recv_script = [], send_script = []\<rparr>"
  let ?w = "\<lparr>dial_script = [None, None, Some ?s], trace = []\<rparr>"
  let ?v = "\<lparr>dial_script = [], trace = []\<rparr>"
  have m: "max_reconnect_attempts init_client = 5" by (simp add: init_client_def)
  have d: "(2::nat) < 5 \<and> dial_script ?w = replicate 2 None @ Some ?s # []"
    by (simp add: numeral_2_eq_2)
  have f: "set (take 5 (dial_script ?v)) \<subseteq> {None}" by simp
  have u: "concat (map (\<lambda>a. [Dialed None, Slept (min (2 ^ a) 10)]) [0..<2])
      = [Dialed None, Slept 1, Dialed None, Slept 2]"
    by (simp add: numeral_2_eq_2)
  from connect_to_offshore_schedule [OF m, of ?w] d
  have "connect_to_offshore init_client ?w =
      (True, init_client\<lparr>offshore_socket := Some ?s, reconnect_attempts := 0\<rparr>,
       ?w\<lparr>dial_script := [],
          trace := trace ?w @ concat (map (\<lambda>a. [Dialed None, Slept (min (2 ^ a) 10)]) [0..<2])
                   @ [Dialed (Some (sock_id ?s))]\<rparr>)"
    by blast
  moreover from connect_to_offshore_schedule [OF m, of ?v] f
  have "connect_to_offshore init_client ?v =
      (False, init_client\<lparr>offshore_socket := None\<rparr>,
       ?v\<lparr>dial_script := drop 5 (dial_script ?v),
          trace := trace ?v @ [Dialed None, Slept 1, Dialed None, Slept 2, Dialed None,
                              Slept 4, Dialed None, Slept 8, Dialed None]\<rparr>)"
    by blast
  ultimately show ?thesis using m u by simp
qed

section \<open>Facts about the request processor\<close>

lemma emit_trace: "trace (emit e w) = trace w @ [e]"
  by (simp add: emit_def)

lemma create_tcp_connection_trace:
  "trace (snd (create_tcp_connection w))
     = trace w @ [Dialed (map_option sock_id (fst (create_tcp_connection w)))]"
  by (simp add: create_tcp_connection_def emit_def split: list.splits)

lemma close_connection_grows: "prefix (trace w) (trace (close_connection so w))"
  by (simp add: close_connection_def emit_def split: option.splits)

lemma connect_attempts_grows:
  "prefix (trace w) (trace (snd (snd (connect_attempts as c w))))"
proof (induction as arbitrary: c w)
  case Nil
  then show ?case by simp
next
  case (Cons a as)
  obtain r w1 where cr: "create_tcp_connection w = (r, w1)" by (cases "create_tcp_connection w")
  have p1: "prefix (trace w) (trace w1)"
    using create_tcp_connection_trace [of w] cr by simp
  show ?case
  proof (cases r)
    case (Some s)
    then show ?thesis using cr p1 by simp
  next
    case None
    define w2 where "w2 = (if int a < int (max_reconnect_attempts c) - 1
             then emit (Slept (min (2 ^ a) 10)) w1 else w1)"
    have "prefix (trace w1) (trace w2)" by (simp add: w2_def emit_def)
    moreover have "prefix (trace w2)
        (trace (snd (snd (connect_attempts as (c\<lparr>offshore_socket := None\<rparr>) w2))))"
      by (rule Cons.IH)
    moreover have "connect_attempts (a # as) c w
          = connect_attempts as (c\<lparr>offshore_socket := None\<rparr>) w2"
      using cr None by (simp add: w2_def)
    ultimately show ?thesis using p1 by (metis prefix_order.order_trans)
  qed
qed

lemma connect_attempts_first_dial:
  assumes "as \<noteq> []"
  shows "\<exists>r more. trace (snd (snd (connect_attempts as c w))) = trace w @ Dialed r # more"
proof -
  from assms obtain a as' where as: "as = a # as'" by (cases as) auto
  obtain r w1 where cr: "create_tcp_connection w = (r, w1)" by (cases "create_tcp_connection w")
  have t1: "trace w1 = trace w @ [Dialed (map_option sock_id r)]"
    using create_tcp_connection_trace [of w] cr by simp
  show ?thesis
  proof (cases r)
    case (Some s)
    then show ?thesis using cr t1 as by simp
  next
    case None
    define w2 where "w2 = (if int a < int (max_reconnect_attempts c) - 1
             then emit (Slept (min (2 ^ a) 10)) w1 else w1)"
    have "prefix (trace w1) (trace w2)" by (simp add: w2_def emit_def)
    moreover have "prefix (trace w2)
        (trace (snd (snd (connect_attempts as' (c\<lparr>offshore_socket := None\<rparr>) w2))))"
      by (rule connect_attempts_grows)
    moreover have "connect_attempts as c w
          = connect_attempts as' (c\<lparr>offshore_socket := None\<rparr>) w2"
      using cr None as by (simp add: w2_def)
    ultimately have "prefix (trace w @ [Dialed (map_option sock_id r)])
        (trace (snd (snd (connect_attempts as c w))))"
      using t1 by (metis prefix_order.order_trans)
    then show ?thesis by (auto simp: prefix_def)
  qed
qed

lemma connect_to_offshore_grows:
  "prefix (trace w) (trace (snd (snd (connect_to_offshore c w))))"
  by (simp add: connect_to_offshore_def connect_attempts_grows)

lemma client_send_grows: "prefix (trace w) (trace (snd (snd (client_send c w p))))"
  by (simp add: client_send_def emit_def split: option.splits prod.splits)

lemma client_read_grows: "prefix (trace w) (trace (snd (snd (client_read c w))))"
  by (simp add: client_read_def emit_def split: option.splits prod.splits)

lemma await_response_grows: "prefix (trace w) (trace (snd (await_response c w item)))"
proof -
  obtain r c1 w1 where cr: "client_read c w = (r, c1, w1)" by (cases "client_read c w")
  have "prefix (trace w) (trace w1)" using client_read_grows [of w c] cr by simp
  moreover have "prefix (trace w1) (trace (snd (await_response c w item)))"
    using cr
    by (cases r) (auto simp: await_response_def complete_def emit_def close_connection_def
          prefix_def split: option.splits)
  ultimately show ?thesis by (metis prefix_order.order_trans)
qed

lemma send_request_grows: "prefix (trace w) (trace (snd (send_request c w item)))"
proof -
  obtain ok c1 w1 where s1: "client_send c w (request_data item) = (ok, c1, w1)"
    by (cases "client_send c w (request_data item)")
  have p1: "prefix (trace w) (trace w1)" using client_send_grows [of w c "request_data item"] s1 by simp
  show ?thesis
  proof (cases ok)
    case True
    then show ?thesis using s1 p1 await_response_grows [of w1 c1 item]
      by (simp add: send_request_def; metis prefix_order.order_trans)
  next
    case False
    define w1' where "w1' = close_connection (offshore_socket c1) w1"
    obtain ok2 c2 w2 where cn: "connect_to_offshore (c1\<lparr>offshore_socket := None\<rparr>) w1' = (ok2, c2, w2)"
      by (cases "connect_to_offshore (c1\<lparr>offshore_socket := None\<rparr>) w1'")
    have p2: "prefix (trace w) (trace w2)"
      using p1 close_connection_grows [of w1 "offshore_socket c1"]
        connect_to_offshore_grows [of w1' "c1\<lparr>offshore_socket := None\<rparr>"] cn
      by (simp add: w1'_def; metis prefix_order.order_trans)
    show ?thesis
    proof (cases ok2)
      case f2: False
      then show ?thesis using False s1 cn p2
        by (simp add: send_request_def w1'_def complete_def emit_def)
    next
      case t2: True
      obtain ok3 c3 w3 where s3: "client_send c2 w2 (request_data item) = (ok3, c3, w3)"
        by (cases "client_send c2 w2 (request_data item)")
      have p3: "prefix (trace w) (trace w3)"
        using p2 client_send_grows [of w2 c2 "request_data item"] s3 by (simp; metis prefix_order.order_trans)
      show ?thesis
      proof (cases ok3)
        case True
        then show ?thesis using False s1 cn t2 s3 p3 await_response_grows [of w3 c3 item]
          by (simp add: send_request_def w1'_def; metis prefix_order.order_trans)
      next
        case f3: False
        then show ?thesis using False s1 cn t2 s3 p3
          by (simp add: send_request_def w1'_def complete_def emit_def)
      qed
    qed
  qed
qed

lemma process_item_grows: "prefix (trace w) (trace (snd (process_item c w item)))"
proof (cases "offshore_socket c = None")
  case False
  then show ?thesis using send_request_grows [of w c item] by (auto simp: process_item_def)
next
  case True
  obtain ok c1 w1 where cn: "connect_to_offshore c w = (ok, c1, w1)"
    by (cases "connect_to_offshore c w")
  have p1: "prefix (trace w) (trace w1)" using connect_to_offshore_grows [of w c] cn by simp
  show ?thesis
  proof (cases ok)
    case True
    with \<open>offshore_socket c = None\<close> cn p1 send_request_grows [of w1 c1 item] show ?thesis
      by (simp add: process_item_def; metis prefix_order.order_trans)
  next
    case False
    with \<open>offshore_socket c = None\<close> cn p1 show ?thesis
      by (simp add: process_item_def complete_def emit_def)
  qed
qed

lemma process_item_dials_first:
  assumes "offshore_socket c = None" and "0 < max_reconnect_attempts c"
  shows "\<exists>r more. trace (snd (process_item c w item)) = trace w @ Dialed r # more"
proof -
  obtain ok c1 w1 where cn: "connect_to_offshore c w = (ok, c1, w1)"
    by (cases "connect_to_offshore c w")
  have "[0..<max_reconnect_attempts c] \<noteq> []" using assms(2) by simp
  from connect_attempts_first_dial [OF this, of c w] cn
  obtain r more where t1: "trace w1 = trace w @ Dialed r # more"
    by (auto simp: connect_to_offshore_def)
  have "prefix (trace w1) (trace (snd (process_item c w item)))"
  proof (cases ok)
    case True
    with assms(1) cn send_request_grows [of w1 c1 item] show ?thesis
      by (simp add: process_item_def)
  next
    case False
    with assms(1) cn show ?thesis
      by (simp add: process_item_def complete_def emit_def)
  qed
  with t1 show ?thesis by (auto simp: prefix_def)
qed

lemma await_response_cases:
  assumes "offshore_socket c = Some s"
    and "read_message (recv_script s) = ((mt, pl), evs')"
  shows "mt = Some MSG_RESPONSE \<and> pl \<noteq> None \<Longrightarrow>
           await_response c w item =
             (c\<lparr>offshore_socket := Some (s\<lparr>recv_script := evs'\<rparr>)\<rparr>,
              w\<lparr>trace := trace w @ [ReadMsg (sock_id s) (mt, pl),
                     Completed (item_id item) \<lparr>data = pl, error = None\<rparr>]\<rparr>)"
    and "\<not> (mt = Some MSG_RESPONSE \<and> pl \<noteq> None) \<Longrightarrow>
           await_response c w item =
             (c\<lparr>offshore_socket := None\<rparr>,
              w\<lparr>trace := trace w @ [ReadMsg (sock_id s) (mt, pl), ClosedSock (sock_id s),
                     Completed (item_id item)
                       \<lparr>data = None, error = Some ''Invalid response from offshore proxy''\<rparr>]\<rparr>)"
  using assms
  by (auto simp: await_response_def client_read_def complete_def emit_def close_connection_def
      empty_container_def)

text \<open>
  C6. After a successful write the processor reads one frame. It is taken as the response
  only if its type is \<open>MSG_RESPONSE\<close> and a payload came with it. On any other type, or
  when \<open>read_message\<close> returned \<open>(None, None)\<close>, the socket is closed and cleared and
  the item is completed with the error \<open>Invalid response from offshore proxy\<close>; the trace
  shows a single read, so nothing is retried or resynchronised. With the socket cleared,
  the next item processed starts by dialling.
\<close>

theorem await_response_only_response:
  assumes "offshore_socket c = Some s"
    and "read_message (recv_script s) = ((mt, pl), evs')"
  shows "(mt = Some MSG_RESPONSE \<and> pl \<noteq> None \<longrightarrow>
           await_response c w item =
             (c\<lparr>offshore_socket := Some (s\<lparr>recv_script := evs'\<rparr>)\<rparr>,
              w\<lparr>trace := trace w @ [ReadMsg (sock_id s) (mt, pl),
                     Completed (item_id item) \<lparr>data = pl, error = None\<rparr>]\<rparr>))
    \<and> (\<not> (mt = Some MSG_RESPONSE \<and> pl \<noteq> None) \<longrightarrow>
           await_response c w item =
             (c\<lparr>offshore_socket := None\<rparr>,
              w\<lparr>trace := trace w @ [ReadMsg (sock_id s) (mt, pl), ClosedSock (sock_id s),
                     Completed (item_id item)
                       \<lparr>data = None, error = Some ''Invalid response from offshore proxy''\<rparr>]\<rparr>)
           \<and> (\<forall>w' item'. 0 < max_reconnect_attempts c \<longrightarrow>
                 (\<exists>r more. trace (snd (process_item (c\<lparr>offshore_socket := None\<rparr>) w' item'))
                    = trace w' @ Dialed r # more)))"
  using await_response_cases [OF assms, of w item] process_item_dials_first
  by simp

lemma send_message_sock_id:
  "send_message s t p = (wr, ok, s') \<Longrightarrow> sock_id s' = sock_id s"
  by (auto simp: send_message_def split: option.splits list.splits send_result.splits)

lemma send_request_first_fails:
  assumes "offshore_socket c = Some s"
    and "send_message s MSG_REQUEST (request_data item) = (wr, False, s')"
    and "connect_to_offshore (c\<lparr>offshore_socket := None\<rparr>)
           (w\<lparr>trace := trace w @ [Wrote (sock_id s) wr False, ClosedSock (sock_id s)]\<rparr>)
         = (ok, c2, w2)"
  shows "send_request c w item =
     (if ok then
        (case client_send c2 w2 (request_data item) of
           (True, c3, w3) \<Rightarrow> await_response c3 w3 item
         | (False, c3, w3) \<Rightarrow>
             (c3, complete item
                \<lparr>data = None, error = Some ''Failed to send request after reconnection''\<rparr> w3))
      else (c2, complete item
              \<lparr>data = None, error = Some ''Lost connection to offshore proxy''\<rparr> w2))"
proof -
  have id: "sock_id s' = sock_id s" using assms(2) by (rule send_message_sock_id)
  have cs: "client_send c w (request_data item)
      = (False, c\<lparr>offshore_socket := Some s'\<rparr>, emit (Wrote (sock_id s) wr False) w)"
    using assms(1,2) by (simp add: client_send_def)
  have cl: "close_connection (Some s') (emit (Wrote (sock_id s) wr False) w)
      = w\<lparr>trace := trace w @ [Wrote (sock_id s) wr False, ClosedSock (sock_id s)]\<rparr>"
    using id by (simp add: close_connection_def emit_def)
  show ?thesis
    using cs cl assms(3)
    by (auto simp: send_request_def empty_container_def split: prod.splits bool.splits)
qed

text \<open>
  C5. When the first \<open>send_message\<close> of an item fails, the socket is closed and cleared and
  \<open>connect_to_offshore\<close> is called. If all its dials fail, the item is completed with
  \<open>Lost connection to offshore proxy\<close> after that single write. If a dial succeeds, the
  request is written exactly once more, on the new socket: a second failure completes the
  item with \<open>Failed to send request after reconnection\<close>, a success goes on to read the
  response. In every case the processor goes on with the items that follow.
\<close>

theorem send_failure_retried_once:
  assumes "max_reconnect_attempts c = 5"
    and "offshore_socket c = Some s"
    and "send_message s MSG_REQUEST (request_data item) = (wr, False, s')"
  shows
   "(set (take 5 (dial_script w)) \<subseteq> {None} \<longrightarrow>
       send_request c w item =
         (c\<lparr>offshore_socket := None\<rparr>,
          w\<lparr>dial_script := drop 5 (dial_script w),
            trace := trace w @
              [Wrote (sock_id s) wr False, ClosedSock (sock_id s),
               Dialed None, Slept 1, Dialed None, Slept 2, Dialed None, Slept 4,
               Dialed None, Slept 8, Dialed None,
               Completed (item_id item)
                 \<lparr>data = None, error = Some ''Lost connection to offshore proxy''\<rparr>]\<rparr>))
    \<and> (\<forall>j s2 rest wr2 ok2 s2'.
          j < 5 \<and> dial_script w = replicate j None @ Some s2 # rest
          \<and> send_message s2 MSG_REQUEST (request_data item) = (wr2, ok2, s2') \<longrightarrow>
          send_request c w item =
            (if ok2 then
               await_response (c\<lparr>reconnect_attempts := 0, offshore_socket := Some s2'\<rparr>)
                 (w\<lparr>dial_script := rest,
                    trace := trace w @ [Wrote (sock_id s) wr False, ClosedSock (sock_id s)]
                      @ concat (map (\<lambda>a. [Dialed None, Slept (min (2 ^ a) 10)]) [0..<j])
                      @ [Dialed (Some (sock_id s2)), Wrote (sock_id s2) wr2 True]\<rparr>)
                 item
             else
               (c\<lparr>reconnect_attempts := 0, offshore_socket := Some s2'\<rparr>,
                w\<lparr>dial_script := rest,
                  trace := trace w @ [Wrote (sock_id s) wr False, ClosedSock (sock_id s)]
                    @ concat (map (\<lambda>a. [Dialed None, Slept (min (2 ^ a) 10)]) [0..<j])
                    @ [Dialed (Some (sock_id s2)), Wrote (sock_id s2) wr2 False,
                       Completed (item_id item)
                         \<lparr>data = None,
                          error = Some ''Failed to send request after reconnection''\<rparr>]\<rparr>)))
    \<and> (\<forall>items. process_requests c w (item # items) =
          (case send_request c w item of (c', w') \<Rightarrow> process_requests c' w' items))"
proof (intro conjI allI impI)
  let ?c0 = "c\<lparr>offshore_socket := None\<rparr>"
  let ?w0 = "w\<lparr>trace := trace w @ [Wrote (sock_id s) wr False, ClosedSock (sock_id s)]\<rparr>"
  have m: "max_reconnect_attempts ?c0 = 5" using assms(1) by simp
  {
    assume "set (take 5 (dial_script w)) \<subseteq> {None}"
    then have "set (take 5 (dial_script ?w0)) \<subseteq> {None}" by simp
    from connect_failure [OF m this]
    have cn: "connect_to_offshore ?c0 ?w0 =
        (False, ?c0,
         ?w0\<lparr>dial_script := drop 5 (dial_script ?w0),
             trace := trace ?w0 @ [Dialed None, Slept 1, Dialed None, Slept 2, Dialed None,
                                  Slept 4, Dialed None, Slept 8, Dialed None]\<rparr>)"
      by simp
    show "send_request c w item =
         (c\<lparr>offshore_socket := None\<rparr>,
          w\<lparr>dial_script := drop 5 (dial_script w),
            trace := trace w @
              [Wrote (sock_id s) wr False, ClosedSock (sock_id s),
               Dialed None, Slept 1, Dialed None, Slept 2, Dialed None, Slept 4,
               Dialed None, Slept 8, Dialed None,
               Completed (item_id item)
                 \<lparr>data = None, error = Some ''Lost connection to offshore proxy''\<rparr>]\<rparr>)"
      unfolding send_request_first_fails [OF assms(2,3) cn]
      by (simp add: complete_def emit_def)
  }
  {
    fix j s2 rest wr2 ok2 s2'
    assume h: "j < 5 \<and> dial_script w = replicate j None @ Some s2 # rest
          \<and> send_message s2 MSG_REQUEST (request_data item) = (wr2, ok2, s2')"
    then have "dial_script ?w0 = replicate j None @ Some s2 # rest" by simp
    from connect_success [OF m _ this] h
    have cn: "connect_to_offshore ?c0 ?w0 =
        (True, ?c0\<lparr>offshore_socket := Some s2, reconnect_attempts := 0\<rparr>,
         ?w0\<lparr>dial_script := rest,
             trace := trace ?w0 @ concat (map (\<lambda>a. [Dialed None, Slept (min (2 ^ a) 10)]) [0..<j])
                      @ [Dialed (Some (sock_id s2))]\<rparr>)"
      by simp
    show "send_request c w item =
            (if ok2 then
               await_response (c\<lparr>reconnect_attempts := 0, offshore_socket := Some s2'\<rparr>)
                 (w\<lparr>dial_script := rest,
                    trace := trace w @ [Wrote (sock_id s) wr False, ClosedSock (sock_id s)]
                      @ concat (map (\<lambda>a. [Dialed None, Slept (min (2 ^ a) 10)]) [0..<j])
                      @ [Dialed (Some (sock_id s2)), Wrote (sock_id s2) wr2 True]\<rparr>)
                 item
             else
               (c\<lparr>reconnect_attempts := 0, offshore_socket := Some s2'\<rparr>,
                w\<lparr>dial_script := rest,
                  trace := trace w @ [Wrote (sock_id s) wr False, ClosedSock (sock_id s)]
                    @ concat (map (\<lambda>a. [Dialed None, Slept (min (2 ^ a) 10)]) [0..<j])
                    @ [Dialed (Some (sock_id s2)), Wrote (sock_id s2) wr2 False,
                       Completed (item_id item)
                         \<lparr>data = None,
                          error = Some ''Failed to send request after reconnection''\<rparr>]\<rparr>))"
      unfolding send_request_first_fails [OF assms(2,3) cn]
      using h by (simp add: client_send_def complete_def emit_def)
  }
  {
    fix items
    show "process_requests c w (item # items) =
          (case send_request c w item of (c', w') \<Rightarrow> process_requests c' w' items)"
      using assms(2) by (simp add: process_item_def)
  }
qed

lemma wire_bytes_append: "wire_bytes (xs @ ys) = wire_bytes xs @ wire_bytes ys"
  by (induction xs rule: wire_bytes.induct) auto

lemma completions_append: "completions (xs @ ys) = completions xs @ completions ys"
  by (induction xs rule: completions.induct) auto

lemma connect_attempts_completions:
  "completions (trace (snd (snd (connect_attempts as c w)))) = completions (trace w)"
proof (induction as arbitrary: c w)
  case Nil
  then show ?case by simp
next
  case (Cons a as)
  obtain r w1 where cr: "create_tcp_connection w = (r, w1)" by (cases "create_tcp_connection w")
  have c1: "completions (trace w1) = completions (trace w)"
    using create_tcp_connection_trace [of w] cr by (simp add: completions_append)
  show ?case
  proof (cases r)
    case (Some s)
    then show ?thesis using cr c1 by simp
  next
    case None
    define w2 where "w2 = (if int a < int (max_reconnect_attempts c) - 1
             then emit (Slept (min (2 ^ a) 10)) w1 else w1)"
    have "completions (trace w2) = completions (trace w1)"
      by (simp add: w2_def emit_def completions_append)
    moreover have "completions (trace (snd (snd (connect_attempts as (c\<lparr>offshore_socket := None\<rparr>) w2))))
        = completions (trace w2)"
      by (rule Cons.IH)
    moreover have "connect_attempts (a # as) c w
          = connect_attempts as (c\<lparr>offshore_socket := None\<rparr>) w2"
      using cr None by (simp add: w2_def)
    ultimately show ?thesis using c1 by simp
  qed
qed

lemma connect_to_offshore_completions:
  "connect_to_offshore c w = (ok, c1, w1) \<Longrightarrow> completions (trace w1) = completions (trace w)"
  using connect_attempts_completions [of "[0..<max_reconnect_attempts c]" c w]
  by (simp add: connect_to_offshore_def)

lemma client_send_completions:
  "client_send c w p = (ok, c1, w1) \<Longrightarrow> completions (trace w1) = completions (trace w)"
  by (auto simp: client_send_def emit_def completions_append split: option.splits prod.splits)

lemma close_connection_completions:
  "completions (trace (close_connection so w)) = completions (trace w)"
  by (simp add: close_connection_def emit_def completions_append split: option.splits)

lemma await_response_completions:
  "map fst (completions (trace (snd (await_response c w item))))
     = map fst (completions (trace w)) @ [item_id item]"
  by (auto simp: await_response_def client_read_def complete_def emit_def completions_append
      close_connection_def split: option.splits prod.splits)

lemma send_request_completions:
  "map fst (completions (trace (snd (send_request c w item))))
     = map fst (completions (trace w)) @ [item_id item]"
proof -
  obtain ok c1 w1 where s1: "client_send c w (request_data item) = (ok, c1, w1)"
    by (cases "client_send c w (request_data item)")
  note e1 = client_send_completions [OF s1]
  show ?thesis
  proof (cases ok)
    case True
    then show ?thesis using s1 e1 await_response_completions [of c1 w1 item]
      by (simp add: send_request_def)
  next
    case False
    obtain ok2 c2 w2 where cn: "connect_to_offshore (c1\<lparr>offshore_socket := None\<rparr>)
        (close_connection (offshore_socket c1) w1) = (ok2, c2, w2)"
      by (cases "connect_to_offshore (c1\<lparr>offshore_socket := None\<rparr>)
        (close_connection (offshore_socket c1) w1)")
    have e2: "completions (trace w2) = completions (trace w)"
      using connect_to_offshore_completions [OF cn] close_connection_completions e1 by simp
    show ?thesis
    proof (cases ok2)
      case f2: False
      then show ?thesis using False s1 cn e2
        by (simp add: send_request_def complete_def emit_def completions_append)
    next
      case t2: True
      obtain ok3 c3 w3 where s3: "client_send c2 w2 (request_data item) = (ok3, c3, w3)"
        by (cases "client_send c2 w2 (request_data item)")
      have e3: "completions (trace w3) = completions (trace w)"
        using client_send_completions [OF s3] e2 by simp
      show ?thesis
      proof (cases ok3)
        case True
        then show ?thesis using False s1 cn t2 s3 e3 await_response_completions [of c3 w3 item]
          by (simp add: send_request_def)
      next
        case f3: False
        then show ?thesis using False s1 cn t2 s3 e3
          by (simp add: send_request_def complete_def emit_def completions_append)
      qed
    qed
  qed
qed

lemma process_item_completions:
  "map fst (completions (trace (snd (process_item c w item))))
     = map fst (completions (trace w)) @ [item_id item]"
proof (cases "offshore_socket c = None")
  case False
  then show ?thesis using send_request_completions [of c w item] by (auto simp: process_item_def)
next
  case True
  obtain ok c1 w1 where cn: "connect_to_offshore c w = (ok, c1, w1)"
    by (cases "connect_to_offshore c w")
  note e1 = connect_to_offshore_completions [OF cn]
  show ?thesis
  proof (cases ok)
    case True
    with \<open>offshore_socket c = None\<close> cn e1 send_request_completions [of c1 w1 item] show ?thesis
      by (simp add: process_item_def)
  next
    case False
    with \<open>offshore_socket c = None\<close> cn e1 show ?thesis
      by (simp add: process_item_def complete_def emit_def completions_append)
  qed
qed

lemma process_requests_completions:
  "map fst (completions (trace (snd (process_requests c w items))))
     = map fst (completions (trace w)) @ map item_id items"
proof (induction items arbitrary: c w)
  case Nil
  then show ?case by simp
next
  case (Cons item items)
  obtain c1 w1 where p: "process_item c w item = (c1, w1)" by (cases "process_item c w item")
  from Cons.IH [of c1 w1] process_item_completions [of c w item] p
  show ?case by simp
qed

lemma process_item_healthy:
  assumes "offshore_socket c = Some s"
    and "send_script s = SendOk # outs"
    and "frame MSG_REQUEST (request_data item) = Some f"
    and "frame MSG_RESPONSE r = Some g"
    and "avail (recv_script s) = g @ rest"
  shows "\<exists>evs'. process_item c w item =
           (c\<lparr>offshore_socket := Some (s\<lparr>send_script := outs, recv_script := evs'\<rparr>)\<rparr>,
            w\<lparr>trace := trace w @ [Wrote (sock_id s) f True,
                   ReadMsg (sock_id s) (Some MSG_RESPONSE, Some r),
                   Completed (item_id item) \<lparr>data = Some r, error = None\<rparr>]\<rparr>)
         \<and> avail evs' = rest"
proof -
  from read_message_frame [OF assms(4,5)] obtain evs' where
    rm: "read_message (recv_script s) = ((Some MSG_RESPONSE, Some r), evs')" and a: "avail evs' = rest"
    by blast
  have cs: "client_send c w (request_data item)
      = (True, c\<lparr>offshore_socket := Some (s\<lparr>send_script := outs\<rparr>)\<rparr>,
         emit (Wrote (sock_id s) f True) w)"
    using assms(1,2,3) by (simp add: client_send_def send_message_def)
  have "process_item c w item =
      await_response (c\<lparr>offshore_socket := Some (s\<lparr>send_script := outs\<rparr>)\<rparr>)
        (emit (Wrote (sock_id s) f True) w) item"
    using assms(1) cs by (simp add: process_item_def send_request_def)
  also have "\<dots> = (c\<lparr>offshore_socket := Some (s\<lparr>send_script := outs, recv_script := evs'\<rparr>)\<rparr>,
            w\<lparr>trace := trace w @ [Wrote (sock_id s) f True,
                   ReadMsg (sock_id s) (Some MSG_RESPONSE, Some r),
                   Completed (item_id item) \<lparr>data = Some r, error = None\<rparr>]\<rparr>)"
    using rm
    by (simp add: await_response_def client_read_def complete_def emit_def empty_container_def)
  finally show ?thesis using a by blast
qed

lemma process_requests_healthy:
  assumes "length items = length resps"
  shows "offshore_socket c = Some s \<Longrightarrow>
    send_script s = replicate (length items) SendOk @ outs \<Longrightarrow>
    map (\<lambda>i. frame MSG_REQUEST (request_data i)) items = map Some fs \<Longrightarrow>
    map (frame MSG_RESPONSE) resps = map Some gs \<Longrightarrow>
    avail (recv_script s) = concat gs @ rest \<Longrightarrow>
    trace (snd (process_requests c w items))
      = trace w @ concat (map (exchange (sock_id s)) (zip items (zip fs resps)))"
  using assms
proof (induction items resps arbitrary: c w s fs gs rule: list_induct2)
  case Nil
  then show ?case by simp
next
  case (Cons item items r resps)
  from Cons.prems(3) obtain f fs' where fs: "fs = f # fs'"
    and f: "frame MSG_REQUEST (request_data item) = Some f"
    and fs': "map (\<lambda>i. frame MSG_REQUEST (request_data i)) items = map Some fs'"
    by (cases fs) auto
  from Cons.prems(4) obtain g gs' where gs: "gs = g # gs'"
    and g: "frame MSG_RESPONSE r = Some g"
    and gs': "map (frame MSG_RESPONSE) resps = map Some gs'"
    by (cases gs) auto
  have so: "send_script s = SendOk # (replicate (length items) SendOk @ outs)"
    using Cons.prems(2) by simp
  have av: "avail (recv_script s) = g @ (concat gs' @ rest)"
    using Cons.prems(5) gs by simp
  from process_item_healthy [OF Cons.prems(1) so f g av, of w]
  obtain evs' where
    step: "process_item c w item =
      (c\<lparr>offshore_socket := Some (s\<lparr>send_script := replicate (length items) SendOk @ outs,
                                       recv_script := evs'\<rparr>)\<rparr>,
       w\<lparr>trace := trace w @ exchange (sock_id s) (item, f, r)\<rparr>)"
    and a: "avail evs' = concat gs' @ rest"
    by (auto simp: exchange_def)
  let ?s1 = "s\<lparr>send_script := replicate (length items) SendOk @ outs, recv_script := evs'\<rparr>"
  let ?c1 = "c\<lparr>offshore_socket := Some ?s1\<rparr>"
  let ?w1 = "w\<lparr>trace := trace w @ exchange (sock_id s) (item, f, r)\<rparr>"
  have "trace (snd (process_requests ?c1 ?w1 items))
      = trace ?w1 @ concat (map (exchange (sock_id ?s1)) (zip items (zip fs' resps)))"
    by (rule Cons.IH [OF _ _ fs' gs']) (simp_all add: a)
  then show ?case using step fs by simp
qed

lemma exchange_wire_bytes:
  "length fs = length items \<Longrightarrow> length resps = length items \<Longrightarrow>
   wire_bytes (concat (map (exchange sid) (zip items (zip fs resps)))) = concat fs"
proof (induction items arbitrary: fs resps)
  case Nil
  then show ?case by simp
next
  case (Cons i items)
  then obtain f fs' r resps' where "fs = f # fs'" "resps = r # resps'"
    by (cases fs; cases resps) auto
  with Cons show ?case by (simp add: exchange_def wire_bytes_append)
qed

lemma exchange_completions:
  "length fs = length items \<Longrightarrow> length resps = length items \<Longrightarrow>
   completions (concat (map (exchange sid) (zip items (zip fs resps))))
     = map (\<lambda>(i, r). (item_id i, \<lparr>data = Some r, error = None\<rparr>)) (zip items resps)"
proof (induction items arbitrary: fs resps)
  case Nil
  then show ?case by simp
next
  case (Cons i items)
  then obtain f fs' r resps' where "fs = f # fs'" "resps = r # resps'"
    by (cases fs; cases resps) auto
  with Cons show ?case by (simp add: exchange_def completions_append)
qed

text \<open>
  C1, amended. In every run each dequeued item is completed exactly once, in dequeue
  order. When the link stays up, that is the socket accepts every write and delivers a
  RESPONSE frame for each request, the trace is one exchange per item, in dequeue order:
  the item's REQUEST frame written in full, then its RESPONSE frame read, then the item
  completed with that response. So the bytes on the wire are
  \<open>frame(s1) \<cdot> \<dots> \<cdot> frame(sN)\<close> and the i-th item receives the i-th response, matched by
  position alone.
\<close>

theorem fifo_on_connected_link:
  "map fst (completions (trace (snd (process_requests c w items))))
     = map fst (completions (trace w)) @ map item_id items
   \<and> (offshore_socket c = Some s \<and> length resps = length items
        \<and> send_script s = replicate (length items) SendOk @ outs
        \<and> map (\<lambda>i. frame MSG_REQUEST (request_data i)) items = map Some fs
        \<and> map (frame MSG_RESPONSE) resps = map Some gs
        \<and> avail (recv_script s) = concat gs @ rest \<longrightarrow>
      trace (snd (process_requests c w items))
        = trace w @ concat (map (exchange (sock_id s)) (zip items (zip fs resps)))
      \<and> wire_bytes (trace (snd (process_requests c w items))) = wire_bytes (trace w) @ concat fs
      \<and> completions (trace (snd (process_requests c w items)))
        = completions (trace w)
          @ map (\<lambda>(i, r). (item_id i, \<lparr>data = Some r, error = None\<rparr>)) (zip items resps))"
proof (intro conjI impI)
  show "map fst (completions (trace (snd (process_requests c w items))))
     = map fst (completions (trace w)) @ map item_id items"
    by (rule process_requests_completions)
next
  assume h: "offshore_socket c = Some s \<and> length resps = length items
        \<and> send_script s = replicate (length items) SendOk @ outs
        \<and> map (\<lambda>i. frame MSG_REQUEST (request_data i)) items = map Some fs
        \<and> map (frame MSG_RESPONSE) resps = map Some gs
        \<and> avail (recv_script s) = concat gs @ rest"
  then have lf: "length fs = length items" by (metis length_map)
  from h have lr: "length resps = length items" by simp
  from h process_requests_healthy [of items resps c s outs fs gs rest w]
  show t: "trace (snd (process_requests c w items))
        = trace w @ concat (map (exchange (sock_id s)) (zip items (zip fs resps)))"
    by simp
  show "wire_bytes (trace (snd (process_requests c w items))) = wire_bytes (trace w) @ concat fs"
    unfolding t by (simp add: wire_bytes_append exchange_wire_bytes [OF lf lr])
  show "completions (trace (snd (process_requests c w items)))
        = completions (trace w)
          @ map (\<lambda>(i, r). (item_id i, \<lparr>data = Some r, error = None\<rparr>)) (zip items resps)"
    unfolding t by (simp add: completions_append exchange_completions [OF lf lr])
qed

lemma frame_GET:
  "frame MSG_REQUEST ''GET''
     = Some [CHR 0x00, CHR 0x00, CHR 0x00, CHR 0x03, CHR 0x00, CHR ''G'', CHR ''E'', CHR ''T'']"
  by (simp add: frame_def pack_I_def pack_B_def MSG_REQUEST_def char_of_eq_iff take_bit_eq_mod)

text \<open>
  C1, as stated, holds for any submissions whatever the link does. It does not: when
  the peer of the connected socket is gone and no dial succeeds, the item is
  completed with an error and none of its frame has been written.
\<close>

theorem fifo_wire_counterexample:
  "frame MSG_REQUEST ''GET''
     = Some [CHR 0x00, CHR 0x00, CHR 0x00, CHR 0x03, CHR 0x00, CHR ''G'', CHR ''E'', CHR ''T'']
   \<and> wire_bytes (trace (snd (process_requests
         (init_client\<lparr>offshore_socket := Some \<lparr>sock_id = 1, recv_script = [], send_script = []\<rparr>\<rparr>)
         \<lparr>dial_script = [], trace = []\<rparr>
         [\<lparr>item_id = ''r1'', request_data = ''GET''\<rparr>]))) = []
   \<and> completions (trace (snd (process_requests
         (init_client\<lparr>offshore_socket := Some \<lparr>sock_id = 1, recv_script = [], send_script = []\<rparr>\<rparr>)
         \<lparr>dial_script = [], trace = []\<rparr>
         [\<lparr>item_id = ''r1'', request_data = ''GET''\<rparr>])))
     = [(''r1'', \<lparr>data = None, error = Some ''Lost connection to offshore proxy''\<rparr>)]"
proof -
  let ?s = "\<lparr>sock_id = 1, recv_script = [], send_script = []\<rparr>"
  let ?c = "init_client\<lparr>offshore_socket := Some ?s\<rparr>"
  let ?w = "\<lparr>dial_script = [], trace = []\<rparr>"
  let ?i = "\<lparr>item_id = ''r1'', request_data = ''GET''\<rparr>"
  have sm: "send_message ?s MSG_REQUEST (request_data ?i) = ([], False, ?s)"
    by (simp add: send_message_def frame_GET)
  have m: "max_reconnect_attempts (?c\<lparr>offshore_socket := None\<rparr>) = 5"
    by (simp add: init_client_def)
  have cn: "connect_to_offshore (?c\<lparr>offshore_socket := None\<rparr>)
      (?w\<lparr>trace := trace ?w @ [Wrote (sock_id ?s) [] False, ClosedSock (sock_id ?s)]\<rparr>)
    = (False, ?c\<lparr>offshore_socket := None\<rparr>,
       \<lparr>dial_script = [],
        trace = [Wrote 1 [] False, ClosedSock 1, Dialed None, Slept 1, Dialed None, Slept 2,
                 Dialed None, Slept 4, Dialed None, Slept 8, Dialed None]\<rparr>)"
    by (subst connect_failure [OF m]) simp_all
  have "send_request ?c ?w ?i
      = (?c\<lparr>offshore_socket := None\<rparr>,
         \<lparr>dial_script = [],
          trace = [Wrote 1 [] False, ClosedSock 1, Dialed None, Slept 1, Dialed None, Slept 2,
                   Dialed None, Slept 4, Dialed None, Slept 8, Dialed None,
                   Completed ''r1''
                     \<lparr>data = None, error = Some ''Lost connection to offshore proxy''\<rparr>]\<rparr>)"
    by (subst send_request_first_fails [OF _ sm cn]) (simp_all add: complete_def emit_def)
  then show ?thesis
    by (simp add: process_item_def frame_GET)
qed

lemma frame_PUT:
  "frame MSG_REQUEST ''PUT''
     = Some [CHR 0x00, CHR 0x00, CHR 0x00, CHR 0x03, CHR 0x00, CHR ''P'', CHR ''U'', CHR ''T'']"
  by (simp add: frame_def pack_I_def pack_B_def MSG_REQUEST_def char_of_eq_iff take_bit_eq_mod)

lemma frame_ok:
  "frame MSG_RESPONSE ''ok''
     = Some [CHR 0x00, CHR 0x00, CHR 0x00, CHR 0x02, CHR 0x01, CHR ''o'', CHR ''k'']"
  by (simp add: frame_def pack_I_def pack_B_def MSG_RESPONSE_def char_of_eq_iff take_bit_eq_mod)

lemma frame_no:
  "frame MSG_RESPONSE ''no''
     = Some [CHR 0x00, CHR 0x00, CHR 0x00, CHR 0x02, CHR 0x01, CHR ''n'', CHR ''o'']"
  by (simp add: frame_def pack_I_def pack_B_def MSG_RESPONSE_def char_of_eq_iff take_bit_eq_mod)

theorem fifo_on_connected_link_witness:
  "trace (snd (process_requests
      (init_client\<lparr>offshore_socket := Some
         \<lparr>sock_id = 1,
          recv_script =
            [Data [CHR 0x00, CHR 0x00, CHR 0x00, CHR 0x02, CHR 0x01, CHR ''o'', CHR ''k'',
                   CHR 0x00, CHR 0x00],
             Data [CHR 0x00, CHR 0x02, CHR 0x01, CHR ''n'', CHR ''o'']],
          send_script = [SendOk, SendOk]\<rparr>\<rparr>)
      \<lparr>dial_script = [], trace = []\<rparr>
      [\<lparr>item_id = ''a'', request_data = ''GET''\<rparr>, \<lparr>item_id = ''b'', request_data = ''PUT''\<rparr>]))
   = [Wrote 1 [CHR 0x00, CHR 0x00, CHR 0x00, CHR 0x03, CHR 0x00, CHR ''G'', CHR ''E'', CHR ''T''] True,
      ReadMsg 1 (Some MSG_RESPONSE, Some ''ok''),
      Completed ''a'' \<lparr>data = Some ''ok'', error = None\<rparr>,
      Wrote 1 [CHR 0x00, CHR 0x00, CHR 0x00, CHR 0x03, CHR 0x00, CHR ''P'', CHR ''U'', CHR ''T''] True,
      ReadMsg 1 (Some MSG_RESPONSE, Some ''no''),
      Completed ''b'' \<lparr>data = Some ''no'', error = None\<rparr>]"
proof -
  let ?s = "\<lparr>sock_id = 1,
          recv_script =
            [Data [CHR 0x00, CHR 0x00, CHR 0x00, CHR 0x02, CHR 0x01, CHR ''o'', CHR ''k'',
                   CHR 0x00, CHR 0x00],
             Data [CHR 0x00, CHR 0x02, CHR 0x01, CHR ''n'', CHR ''o'']],
          send_script = [SendOk, SendOk]\<rparr>"
  let ?c = "init_client\<lparr>offshore_socket := Some ?s\<rparr>"
  let ?w = "\<lparr>dial_script = [], trace = []\<rparr>"
  let ?items = "[\<lparr>item_id = ''a'', request_data = ''GET''\<rparr>, \<lparr>item_id = ''b'', request_data = ''PUT''\<rparr>]"
  let ?fs = "[[CHR 0x00, CHR 0x00, CHR 0x00, CHR 0x03, CHR 0x00, CHR ''G'', CHR ''E'', CHR ''T''],
              [CHR 0x00, CHR 0x00, CHR 0x00, CHR 0x03, CHR 0x00, CHR ''P'', CHR ''U'', CHR ''T'']]"
  let ?gs = "[[CHR 0x00, CHR 0x00, CHR 0x00, CHR 0x02, CHR 0x01, CHR ''o'', CHR ''k''],
              [CHR 0x00, CHR 0x00, CHR 0x00, CHR 0x02, CHR 0x01, CHR ''n'', CHR ''o'']]"
  have h: "offshore_socket ?c = Some ?s \<and> length [''ok'', ''no''] = length ?items
        \<and> send_script ?s = replicate (length ?items) SendOk @ []
        \<and> map (\<lambda>i. frame MSG_REQUEST (request_data i)) ?items = map Some ?fs
        \<and> map (frame MSG_RESPONSE) [''ok'', ''no''] = map Some ?gs
        \<and> avail (recv_script ?s) = concat ?gs @ []"
    by (simp add: frame_GET frame_PUT frame_ok frame_no numeral_2_eq_2)
  from fifo_on_connected_link [of ?c ?w ?items ?s "[''ok'', ''no'']" "[]" ?fs ?gs "[]"] h
  have "trace (snd (process_requests ?c ?w ?items))
        = trace ?w @ concat (map (exchange (sock_id ?s)) (zip ?items (zip ?fs [''ok'', ''no''])))"
    by blast
  then show ?thesis by (simp add: exchange_def)
qed

theorem send_failure_retried_once_witness:
  "max_reconnect_attempts
     (init_client\<lparr>offshore_socket := Some \<lparr>sock_id = 1, recv_script = [], send_script = [SendFail 3]\<rparr>\<rparr>)
     = 5
   \<and> send_message \<lparr>sock_id = 1, recv_script = [], send_script = [SendFail 3]\<rparr> MSG_REQUEST ''GET''
     = ([CHR 0x00, CHR 0x00, CHR 0x00], False, \<lparr>sock_id = 1, recv_script = [], send_script = []\<rparr>)
   \<and> send_request
       (init_client\<lparr>offshore_socket := Some \<lparr>sock_id = 1, recv_script = [], send_script = [SendFail 3]\<rparr>\<rparr>)
       \<lparr>dial_script = [None, Some \<lparr>sock_id = 2, recv_script = [], send_script = []\<rparr>], trace = []\<rparr>
       \<lparr>item_id = ''r1'', request_data = ''GET''\<rparr>
     = (init_client\<lparr>reconnect_attempts := 0,
          offshore_socket := Some \<lparr>sock_id = 2, recv_script = [], send_script = []\<rparr>\<rparr>,
        \<lparr>dial_script = [],
         trace = [Wrote 1 [CHR 0x00, CHR 0x00, CHR 0x00] False, ClosedSock 1,
                  Dialed None, Slept 1, Dialed (Some 2), Wrote 2 [] False,
                  Completed ''r1''
                    \<lparr>data = None, error = Some ''Failed to send request after reconnection''\<rparr>]\<rparr>)"
proof -
  let ?s = "\<lparr>sock_id = 1, recv_script = [], send_script = [SendFail 3]\<rparr>"
  let ?s2 = "\<lparr>sock_id = 2, recv_script = [], send_script = []\<rparr>"
  let ?c = "init_client\<lparr>offshore_socket := Some ?s\<rparr>"
  let ?w = "\<lparr>dial_script = [None, Some ?s2], trace = []\<rparr>"
  let ?i = "\<lparr>item_id = ''r1'', request_data = ''GET''\<rparr>"
  have m: "max_reconnect_attempts ?c = 5" by (simp add: init_client_def)
  have o: "offshore_socket ?c = Some ?s" by simp
  have s1: "send_message ?s MSG_REQUEST (request_data ?i)
      = ([CHR 0x00, CHR 0x00, CHR 0x00], False, \<lparr>sock_id = 1, recv_script = [], send_script = []\<rparr>)"
    by (simp add: send_message_def frame_GET)
  have h: "(1::nat) < 5 \<and> dial_script ?w = replicate 1 None @ Some ?s2 # []
      \<and> send_message ?s2 MSG_REQUEST (request_data ?i) = ([], False, ?s2)"
    by (simp add: send_message_def frame_GET)
  from send_failure_retried_once [OF m o s1, of ?w] h
  have "send_request ?c ?w ?i =
      (if False then
               await_response (?c\<lparr>reconnect_attempts := 0, offshore_socket := Some ?s2\<rparr>)
                 (?w\<lparr>dial_script := [],
                    trace := trace ?w @ [Wrote (sock_id ?s) [CHR 0x00, CHR 0x00, CHR 0x00] False, ClosedSock (sock_id ?s)]
                      @ concat (map (\<lambda>a. [Dialed None, Slept (min (2 ^ a) 10)]) [0..<1])
                      @ [Dialed (Some (sock_id ?s2)), Wrote (sock_id ?s2) [] True]\<rparr>)
                 ?i
             else
               (?c\<lparr>reconnect_attempts := 0, offshore_socket := Some ?s2\<rparr>,
                ?w\<lparr>dial_script := [],
                  trace := trace ?w @ [Wrote (sock_id ?s) [CHR 0x00, CHR 0x00, CHR 0x00] False, ClosedSock (sock_id ?s)]
                    @ concat (map (\<lambda>a. [Dialed None, Slept (min (2 ^ a) 10)]) [0..<1])
                    @ [Dialed (Some (sock_id ?s2)), Wrote (sock_id ?s2) [] False,
                       Completed (item_id ?i)
                         \<lparr>data = None,
                          error = Some ''Failed to send request after reconnection''\<rparr>]\<rparr>))"
    by blast
  then show ?thesis using m s1 by simp
qed

theorem await_response_only_response_witness:
  "read_message [Data [CHR 0x00, CHR 0x00, CHR 0x00, CHR 0x01, CHR 0x00, CHR ''x'']]
     = ((Some MSG_REQUEST, Some ''x''), [])
   \<and> await_response
       (init_client\<lparr>offshore_socket := Some
          \<lparr>sock_id = 3,
           recv_script = [Data [CHR 0x00, CHR 0x00, CHR 0x00, CHR 0x01, CHR 0x00, CHR ''x'']],
           send_script = []\<rparr>\<rparr>)
       \<lparr>dial_script = [], trace = []\<rparr>
       \<lparr>item_id = ''r1'', request_data = ''GET''\<rparr>
     = (init_client\<lparr>offshore_socket := None\<rparr>,
        \<lparr>dial_script = [],
         trace = [ReadMsg 3 (Some MSG_REQUEST, Some ''x''), ClosedSock 3,
                  Completed ''r1''
                    \<lparr>data = None, error = Some ''Invalid response from offshore proxy''\<rparr>]\<rparr>)"
proof -
  let ?s = "\<lparr>sock_id = 3,
           recv_script = [Data [CHR 0x00, CHR 0x00, CHR 0x00, CHR 0x01, CHR 0x00, CHR ''x'']],
           send_script = []\<rparr>"
  let ?c = "init_client\<lparr>offshore_socket := Some ?s\<rparr>"
  have rm: "read_message (recv_script ?s) = ((Some MSG_REQUEST, Some ''x''), [])"
    by (simp add: read_message_def read_exact_def read_exact_loop.simps unpack_I_def unpack_B_def
        MSG_REQUEST_def)
  have o: "offshore_socket ?c = Some ?s" by simp
  have n: "\<not> (Some MSG_REQUEST = Some MSG_RESPONSE \<and> Some ''x'' \<noteq> None)"
    by (simp add: MSG_REQUEST_def MSG_RESPONSE_def)
  from await_response_only_response [OF o rm, of "\<lparr>dial_script = [], trace = []\<rparr>"
      "\<lparr>item_id = ''r1'', request_data = ''GET''\<rparr>"] n
  have "await_response ?c \<lparr>dial_script = [], trace = []\<rparr> \<lparr>item_id = ''r1'', request_data = ''GET''\<rparr>
      = (?c\<lparr>offshore_socket := None\<rparr>,
         \<lparr>dial_script = [], trace = []\<rparr>\<lparr>trace := trace \<lparr>dial_script = [], trace = []\<rparr>
            @ [ReadMsg (sock_id ?s) (Some MSG_REQUEST, Some ''x''), ClosedSock (sock_id ?s),
               Completed (item_id \<lparr>item_id = ''r1'', request_data = ''GET''\<rparr>)
                 \<lparr>data = None, error = Some ''Invalid response from offshore proxy''\<rparr>]\<rparr>)"
    by blast
  then show ?thesis using rm by simp
qed

section \<open>Facts about the offshore request processor\<close>

lemmas eval_defs = parse_request_def forward_def extract_body_def decode_def prepend_def strip_def
  utf8_decode_replace.simps is_space_def upper_ascii_def U_def encode_def surrogate_def
  encode_char_def CRLF_def early_def Let_def char_of_eq_iff take_bit_eq_mod example_env_def
  is_cont_def second_ok3_def second_ok4_def pop_proxy_headers_def dict_pop_def
  bytes_after_header_def

lemmas server_defs = process_http_request_def parse_request_def decode_def prepend_def strip_def
  utf8_decode_replace.simps
  is_space_def upper_ascii_def U_def handle_connect_method_def encode_def surrogate_def
  encode_char_def CRLF_def early_def Let_def char_of_eq_iff take_bit_eq_mod

lemma split_crlf_nonempty: "split_crlf s \<noteq> []"
  by (induction s rule: split_crlf.induct) (auto simp: prepend_def split: list.splits)

lemma decode_ascii_prefix:
  "\<forall>c \<in> set a. of_char c < (128::nat) \<Longrightarrow> decode (a @ bs) = map of_char a @ decode bs"
  by (induction a) (simp_all add: decode_def utf8_decode_replace.simps)

lemma handle_connect_method_literal:
  "handle_connect_method url cid
     = Inr (''HTTP/1.1 200 Connection Established'' @ [CHR 0x0D, CHR 0x0A, CHR 0x0D, CHR 0x0A])"
  by (simp add: handle_connect_method_def encode_def surrogate_def encode_char_def CRLF_def U_def
      char_of_eq_iff take_bit_eq_mod)

lemma process_connect:
  assumes "split_char 32 (strip (hd (split_crlf (decode payload)))) = [meth, url, version]"
    and "map upper_ascii meth = U ''CONNECT''"
  shows "process_http_request e payload cid
     = Inr (''HTTP/1.1 200 Connection Established'' @ [CHR 0x0D, CHR 0x0A, CHR 0x0D, CHR 0x0A])"
proof -
  have ne: "strip (hd (split_crlf (decode payload))) \<noteq> []"
    using assms(1) by auto
  have "parse_request e payload cid = early (handle_connect_method url cid)"
    using assms ne split_crlf_nonempty [of "decode payload"]
    by (simp add: parse_request_def Let_def)
  then show ?thesis
    by (simp add: process_http_request_def handle_connect_method_literal early_def)
qed

lemma split_crlf_no_cr:
  "13 \<notin> set xs \<Longrightarrow> split_crlf xs = [xs]"
  by (induction xs rule: split_crlf.induct) (auto simp: prepend_def)

lemma split_crlf_first_line:
  "13 \<notin> set xs \<Longrightarrow> split_crlf (xs @ 13 # 10 # ys) = xs # split_crlf ys"
proof (induction xs)
  case Nil
  then show ?case by simp
next
  case (Cons x xs)
  then have "split_crlf (x # (xs @ 13 # 10 # ys)) = prepend x (split_crlf (xs @ 13 # 10 # ys))"
    by (cases xs) auto
  with Cons show ?case by (simp add: prepend_def)
qed

lemma split_char_no_sep:
  "sep \<notin> set xs \<Longrightarrow> split_char sep xs = [xs]"
  by (induction xs) (auto simp: prepend_def)

lemma split_char_first:
  "sep \<notin> set xs \<Longrightarrow> split_char sep (xs @ sep # ys) = xs # split_char sep ys"
  by (induction xs) (auto simp: prepend_def)

lemma strip_trimmed:
  "xs \<noteq> [] \<Longrightarrow> \<not> is_space (hd xs) \<Longrightarrow> \<not> is_space (last xs) \<Longrightarrow> strip xs = xs"
proof -
  assume a: "xs \<noteq> []" "\<not> is_space (hd xs)" "\<not> is_space (last xs)"
  then have 1: "dropWhile is_space xs = xs" by (cases xs) auto
  from a have "rev xs \<noteq> []" "\<not> is_space (hd (rev xs))" by (simp_all add: hd_rev)
  then have "dropWhile is_space (rev xs) = rev xs" by (cases "rev xs") auto
  with 1 show ?thesis by (simp add: strip_def)
qed

lemma clean_Nil [simp]: "clean []"
  by (simp add: clean_def)

lemma clean_append [simp]: "clean (a @ b) \<longleftrightarrow> clean a \<and> clean b"
  by (auto simp: clean_def)

lemma clean_Cons [simp]: "clean (c # s) \<longleftrightarrow> \<not> surrogate c \<and> clean s"
  by (auto simp: clean_def)

lemma clean_U [simp]: "clean (U s)"
  unfolding clean_def U_def surrogate_def
proof (intro ballI)
  fix c :: nat
  assume "c \<in> set (map of_char s)"
  then obtain x :: char where "c = of_char x" by auto
  moreover have "of_char x < (256::nat)" by simp
  ultimately show "\<not> (0xD800 \<le> c \<and> c < 0xE000)" by linarith
qed

lemma clean_str_nat [simp]: "clean (str_nat n)"
proof (induction n rule: str_nat.induct)
  case (1 n)
  show ?case
  proof (cases "n < 10")
    case True
    then show ?thesis by (subst str_nat.simps) (simp add: surrogate_def)
  next
    case False
    with 1 show ?thesis by (subst str_nat.simps) (simp add: surrogate_def)
  qed
qed

lemma clean_CRLF [simp]: "clean CRLF"
  by (simp add: CRLF_def surrogate_def)







lemma step_ascii: "b0 < 128 \<Longrightarrow> decode_step_ok b0 bs b0 0"
  by (simp add: decode_step_ok_def utf8_decode_replace.simps)

lemma step_invalid_start:
  "128 \<le> b0 \<Longrightarrow> b0 < 194 \<or> 245 \<le> b0 \<Longrightarrow> decode_step_ok b0 bs 0xFFFD 0"
  by (auto simp: decode_step_ok_def utf8_decode_replace.simps surrogate_def)

lemma step_two:
  assumes "194 \<le> b0" "b0 < 224"
  shows "\<exists>c k. decode_step_ok b0 bs c k"
proof (cases bs)
  case Nil
  then have "decode_step_ok b0 bs 0xFFFD 0"
    using assms by (simp add: decode_step_ok_def utf8_decode_replace.simps surrogate_def)
  then show ?thesis by blast
next
  case (Cons b1 r1)
  show ?thesis
  proof (cases "is_cont b1")
    case True
    then have "decode_step_ok b0 bs ((b0 - 0xC0) * 64 + (b1 - 0x80)) 1"
      using assms Cons
      by (simp add: decode_step_ok_def utf8_decode_replace.simps surrogate_def is_cont_def; arith)
    then show ?thesis by blast
  next
    case False
    then have "decode_step_ok b0 bs 0xFFFD 0"
      using assms Cons
      by (simp add: decode_step_ok_def utf8_decode_replace.simps surrogate_def)
    then show ?thesis by blast
  qed
qed

lemma step_three:
  assumes "224 \<le> b0" "b0 < 240"
  shows "\<exists>c k. decode_step_ok b0 bs c k"
proof (cases bs)
  case Nil
  then have "decode_step_ok b0 bs 0xFFFD 0"
    using assms by (simp add: decode_step_ok_def utf8_decode_replace.simps surrogate_def)
  then show ?thesis by blast
next
  case (Cons b1 r1)
  show ?thesis
  proof (cases "second_ok3 b0 b1")
    case False
    then have "decode_step_ok b0 bs 0xFFFD 0"
      using assms Cons
      by (simp add: decode_step_ok_def utf8_decode_replace.simps surrogate_def)
    then show ?thesis by blast
  next
    case ok: True
    then have b1: "128 \<le> b1" "b1 < 192" by (simp_all add: second_ok3_def is_cont_def)
    show ?thesis
    proof (cases r1)
      case Nil
      then have "decode_step_ok b0 bs 0xFFFD 1"
        using assms Cons ok b1
        by (simp add: decode_step_ok_def utf8_decode_replace.simps surrogate_def)
      then show ?thesis by blast
    next
      case r1: (Cons b2 r2)
      show ?thesis
      proof (cases "is_cont b2")
        case False
        then have "decode_step_ok b0 bs 0xFFFD 1"
          using assms Cons ok b1 r1
          by (simp add: decode_step_ok_def utf8_decode_replace.simps surrogate_def)
        then show ?thesis by blast
      next
        case True
        then have b2: "128 \<le> b2" "b2 < 192" by (simp_all add: is_cont_def)
        let ?c = "(b0 - 0xE0) * 4096 + (b1 - 0x80) * 64 + (b2 - 0x80)"
        have lo: "128 \<le> ?c"
        proof (cases "b0 = 224")
          case True
          with ok have "160 \<le> b1" by (simp add: second_ok3_def split: if_splits)
          then show ?thesis by arith
        next
          case False
          with assms have "225 \<le> b0" by simp
          then show ?thesis by arith
        qed
        have ns: "\<not> surrogate ?c"
        proof (cases "b0 = 237")
          case True
          with ok have "b1 < 160" by (simp add: second_ok3_def split: if_splits)
          with True b1 b2 show ?thesis by (simp add: surrogate_def)
        next
          case False
          then consider "b0 \<le> 236" | "238 \<le> b0" by linarith
          then show ?thesis
          proof cases
            case 1
            with assms b1 b2 have "?c < 55296" by arith
            then show ?thesis by (simp add: surrogate_def)
          next
            case 2
            then have "57344 \<le> ?c" by arith
            then show ?thesis by (simp add: surrogate_def)
          qed
        qed
        have "decode_step_ok b0 bs ?c 2"
          using assms Cons ok r1 True lo ns b1 b2
          by (simp add: decode_step_ok_def utf8_decode_replace.simps numeral_2_eq_2)
        then show ?thesis by blast
      qed
    qed
  qed
qed

lemma step_four:
  assumes "240 \<le> b0" "b0 < 245"
  shows "\<exists>c k. decode_step_ok b0 bs c k"
proof (cases bs)
  case Nil
  then have "decode_step_ok b0 bs 0xFFFD 0"
    using assms by (simp add: decode_step_ok_def utf8_decode_replace.simps surrogate_def)
  then show ?thesis by blast
next
  case (Cons b1 r1)
  show ?thesis
  proof (cases "second_ok4 b0 b1")
    case False
    then have "decode_step_ok b0 bs 0xFFFD 0"
      using assms Cons
      by (simp add: decode_step_ok_def utf8_decode_replace.simps surrogate_def)
    then show ?thesis by blast
  next
    case ok: True
    then have b1: "128 \<le> b1" "b1 < 192" by (simp_all add: second_ok4_def is_cont_def)
    show ?thesis
    proof (cases r1)
      case Nil
      then have "decode_step_ok b0 bs 0xFFFD 1"
        using assms Cons ok b1
        by (simp add: decode_step_ok_def utf8_decode_replace.simps surrogate_def)
      then show ?thesis by blast
    next
      case r1: (Cons b2 r2)
      show ?thesis
      proof (cases "is_cont b2")
        case False
        then have "decode_step_ok b0 bs 0xFFFD 1"
          using assms Cons ok b1 r1
          by (simp add: decode_step_ok_def utf8_decode_replace.simps surrogate_def)
        then show ?thesis by blast
      next
        case c2: True
        then have b2: "128 \<le> b2" "b2 < 192" by (simp_all add: is_cont_def)
        show ?thesis
        proof (cases r2)
          case Nil
          then have "decode_step_ok b0 bs 0xFFFD 2"
            using assms Cons ok b1 r1 c2 b2
            by (simp add: decode_step_ok_def utf8_decode_replace.simps surrogate_def
                numeral_2_eq_2)
          then show ?thesis by blast
        next
          case r2: (Cons b3 r3)
          show ?thesis
          proof (cases "is_cont b3")
            case False
            then have "decode_step_ok b0 bs 0xFFFD 2"
              using assms Cons ok b1 r1 c2 b2 r2
              by (simp add: decode_step_ok_def utf8_decode_replace.simps surrogate_def
                  numeral_2_eq_2)
            then show ?thesis by blast
          next
            case c3: True
            then have b3: "128 \<le> b3" "b3 < 192" by (simp_all add: is_cont_def)
            let ?c = "(b0 - 0xF0) * 262144 + (b1 - 0x80) * 4096 + (b2 - 0x80) * 64 + (b3 - 0x80)"
            have lo: "65536 \<le> ?c"
            proof (cases "b0 = 240")
              case True
              with ok have "144 \<le> b1" by (simp add: second_ok4_def split: if_splits)
              then show ?thesis by arith
            next
              case False
              with assms have "241 \<le> b0" by simp
              then show ?thesis by arith
            qed
            then have c: "128 \<le> ?c" "\<not> surrogate ?c" by (simp_all add: surrogate_def)
            have "decode_step_ok b0 bs ?c 3"
              using assms Cons ok r1 c2 r2 c3 c b1 b2 b3
              by (simp add: decode_step_ok_def utf8_decode_replace.simps numeral_3_eq_3)
            then show ?thesis by blast
          qed
        qed
      qed
    qed
  qed
qed

lemma decode_step: "\<exists>c k. decode_step_ok b0 bs c k"
proof -
  consider "b0 < 128" | "128 \<le> b0 \<and> (b0 < 194 \<or> 245 \<le> b0)" | "194 \<le> b0 \<and> b0 < 224"
    | "224 \<le> b0 \<and> b0 < 240" | "240 \<le> b0 \<and> b0 < 245"
    by linarith
  then show ?thesis
  proof cases
    case 1
    then show ?thesis using step_ascii by blast
  next
    case 2
    then show ?thesis using step_invalid_start by blast
  next
    case 3
    then show ?thesis using step_two by blast
  next
    case 4
    then show ?thesis using step_three by blast
  next
    case 5
    then show ?thesis using step_four by blast
  qed
qed

lemma clean_utf8_decode_replace: "clean (utf8_decode_replace bs)"
proof (induction "length bs" arbitrary: bs rule: less_induct)
  case less
  show ?case
  proof (cases bs)
    case Nil
    then show ?thesis by simp
  next
    case (Cons b0 r)
    from decode_step [of b0 r] obtain c k where s: "decode_step_ok b0 r c k" by blast
    then have e: "utf8_decode_replace bs = c # utf8_decode_replace (drop k r)"
      and nc: "\<not> surrogate c"
      using Cons by (auto simp: decode_step_ok_def surrogate_def split: if_splits)
    have "length (drop k r) < length bs" using Cons by simp
    from less [OF this] e nc show ?thesis by simp
  qed
qed

lemma clean_decode [simp]: "clean (decode bs)"
  by (simp add: decode_def clean_utf8_decode_replace)

lemma encode_clean: "clean s \<Longrightarrow> encode s = Inr (concat (map encode_char s))"
  by (simp add: encode_def clean_def list_ex_iff)

lemma not_surrogate_small: "c < 256 \<Longrightarrow> \<not> surrogate c"
  by (simp add: surrogate_def)

lemma hex_digit_small: "hex_digit (x mod 16) < 256"
proof -
  have "x mod 16 < 16" by simp
  then show ?thesis unfolding hex_digit_def by (auto intro: less_trans)
qed

lemma clean_encode_error_text: "clean (encode_error_text s)"
  by (simp add: encode_error_text_def Let_def not_surrogate_small hex_digit_small)

lemma encode_unclean:
  "\<not> clean s \<Longrightarrow> encode s = Inl (Exn UnicodeEncodeError (encode_error_text s))"
  by (simp add: encode_def clean_def list_ex_iff)

lemma encode_char_ascii: "c < 128 \<Longrightarrow> encode_char c = [char_of c]"
  by (simp add: encode_char_def)

lemma encode_U_ascii:
  "\<forall>c \<in> set a. of_char c < (128::nat) \<Longrightarrow> concat (map encode_char (U a)) = a"
  by (induction a) (simp_all add: U_def encode_char_ascii)


lemma encode_cases: "(\<exists>b. encode s = Inr b) \<or> encode_failure (encode s)"
  using encode_clean [of s] encode_unclean [of s] clean_encode_error_text [of s]
  by (cases "clean s") (auto simp: encode_failure_def)



lemma join_crlf_Cons: "ls \<noteq> [] \<Longrightarrow> join_crlf (l # ls) = l @ CRLF @ join_crlf ls"
  by (cases ls) simp_all







subsection \<open>The CONNECT stub\<close>

lemma token_bytes:
  assumes "token t"
  shows "\<forall>c \<in> set t. of_char c < (128::nat)" and "32 \<notin> set (map of_char t :: nat list)"
    and "13 \<notin> set (map of_char t :: nat list)" and "t \<noteq> []"
    and "\<not> is_space (of_char (last t))"
proof -
  from assms have ne: "t \<noteq> []"
    and r: "\<And>c. c \<in> set t \<Longrightarrow> 33 \<le> (of_char c :: nat) \<and> (of_char c :: nat) \<le> 126"
    by (auto simp: token_def)
  show "t \<noteq> []" by (rule ne)
  show "\<forall>c \<in> set t. of_char c < (128::nat)" using r by fastforce
  show "32 \<notin> set (map of_char t :: nat list)" using r by fastforce
  show "13 \<notin> set (map of_char t :: nat list)" using r by fastforce
  have "last t \<in> set t" using ne by simp
  from r [OF this] show "\<not> is_space (of_char (last t))" by (simp add: is_space_def)
qed

lemma connect_line:
  assumes "token target" and "token version"
  shows "split_char 32 (strip (U (''CONNECT '' @ target @ '' '' @ version)))
     = [U ''CONNECT'', U target, U version]"
proof -
  note t = token_bytes [OF assms(1)] and v = token_bytes [OF assms(2)]
  let ?line = "U (''CONNECT '' @ target @ '' '' @ version)"
  have l: "?line = U ''CONNECT'' @ 32 # (U target @ 32 # U version)"
    by (simp add: U_def)
  have "last ?line = of_char (last version)"
    using v(4) by (simp add: U_def last_map)
  moreover have "hd ?line = 67" by (simp add: U_def)
  ultimately have "strip ?line = ?line"
    using v(5) by (intro strip_trimmed) (simp_all add: is_space_def U_def)
  moreover have "split_char 32 (U ''CONNECT'' @ 32 # (U target @ 32 # U version))
      = [U ''CONNECT'', U target, U version]"
    using t(2) v(2)
    by (subst split_char_first, simp add: U_def, subst split_char_first, simp add: U_def,
        subst split_char_no_sep) (simp_all add: U_def)
  ultimately show ?thesis using l by simp
qed

lemma connect_first_line:
  assumes "token target" and "token version"
    and "tail = [] \<or> prefix [CHR 0x0D, CHR 0x0A] tail"
  shows "hd (split_crlf (decode (''CONNECT '' @ target @ '' '' @ version @ tail)))
     = U (''CONNECT '' @ target @ '' '' @ version)"
proof -
  note t = token_bytes [OF assms(1)] and v = token_bytes [OF assms(2)]
  let ?a = "''CONNECT '' @ target @ '' '' @ version"
  have asc: "\<forall>c \<in> set ?a. of_char c < (128::nat)" using t(1) v(1) by auto
  have nocr: "13 \<notin> set (U ?a)" using t(3) v(3) by (auto simp: U_def)
  from assms(3) show ?thesis
  proof
    assume "tail = []"
    then have "decode (?a @ tail) = U ?a"
      using decode_ascii_prefix [OF asc, of "[]"] by (simp add: U_def decode_def)
    then show ?thesis using split_crlf_no_cr [OF nocr] by simp
  next
    assume "prefix [CHR 0x0D, CHR 0x0A] tail"
    then obtain r where tail: "tail = [CHR 0x0D, CHR 0x0A] @ r" by (auto simp: prefix_def)
    have "decode tail = 13 # 10 # decode r"
      unfolding tail by (subst decode_ascii_prefix) simp_all
    then have "decode (?a @ tail) = U ?a @ 13 # 10 # decode r"
      using decode_ascii_prefix [OF asc, of tail] by (simp add: U_def)
    then show ?thesis using split_crlf_first_line [OF nocr] by simp
  qed
qed

text \<open>
  C8: for every request payload whose method is CONNECT, whatever the target, the response
  of the offshore server is byte for byte \<open>HTTP/1.1 200 Connection Established\r\n\r\n\<close>.
  First as the code decides it: the stripped first line splits at spaces into three parts
  and the first, in upper case, is \<open>CONNECT\<close>. Then on the wire: \<open>CONNECT\<close>, a target and a
  version that are tokens, followed by nothing or by \<open>CRLF\<close> and any bytes. Neither
  \<open>urlparse\<close> nor the origin is consulted, so the environment is arbitrary.
\<close>

theorem connect_stub:
  "(split_char 32 (strip (hd (split_crlf (decode payload)))) = [meth, url, version]
      \<and> map upper_ascii meth = U ''CONNECT''
    \<longrightarrow> process_http_request e payload cid = Inr CONNECT_REPLY)
   \<and> (token target \<and> token ver \<and> (tail = [] \<or> prefix [CHR 0x0D, CHR 0x0A] tail)
    \<longrightarrow> process_http_request e (''CONNECT '' @ target @ '' '' @ ver @ tail) cid
          = Inr CONNECT_REPLY)"
proof (intro conjI impI)
  assume "split_char 32 (strip (hd (split_crlf (decode payload)))) = [meth, url, version]
      \<and> map upper_ascii meth = U ''CONNECT''"
  then show "process_http_request e payload cid = Inr CONNECT_REPLY"
    using process_connect [of payload meth url version e cid] by (simp add: CONNECT_REPLY_def)
next
  assume h: "token target \<and> token ver \<and> (tail = [] \<or> prefix [CHR 0x0D, CHR 0x0A] tail)"
  let ?p = "''CONNECT '' @ target @ '' '' @ ver @ tail"
  have "hd (split_crlf (decode ?p)) = U (''CONNECT '' @ target @ '' '' @ ver)"
    using h by (intro connect_first_line) simp_all
  then have "split_char 32 (strip (hd (split_crlf (decode ?p)))) = [U ''CONNECT'', U target, U ver]"
    using h connect_line [of target ver] by simp
  moreover have "map upper_ascii (U ''CONNECT'') = U ''CONNECT''"
    by (simp add: U_def upper_ascii_def)
  ultimately show "process_http_request e ?p cid = Inr CONNECT_REPLY"
    using process_connect [of ?p "U ''CONNECT''" "U target" "U ver" e cid]
    by (simp add: CONNECT_REPLY_def)
qed

theorem connect_stub_witness:
  "token ''example.com:443'' \<and> token ''HTTP/1.1''
   \<and> process_http_request failing_env
        (''CONNECT example.com:443 HTTP/1.1'' @ [CHR 0x0D, CHR 0x0A, CHR 0x0D, CHR 0x0A]) ''ship''
      = Inr (''HTTP/1.1 200 Connection Established'' @ [CHR 0x0D, CHR 0x0A, CHR 0x0D, CHR 0x0A])"
proof -
  have t: "token ''example.com:443''" "token ''HTTP/1.1''" by (simp_all add: token_def)
  have p: "prefix [CHR 0x0D, CHR 0x0A] [CHR 0x0D, CHR 0x0A, CHR 0x0D, CHR 0x0A]" by simp
  from connect_stub [of _ _ _ _ failing_env "''ship''" "''example.com:443''" "''HTTP/1.1''"
      "[CHR 0x0D, CHR 0x0A, CHR 0x0D, CHR 0x0A]"] t p
  have "process_http_request failing_env
        (''CONNECT '' @ ''example.com:443'' @ '' '' @ ''HTTP/1.1''
           @ [CHR 0x0D, CHR 0x0A, CHR 0x0D, CHR 0x0A]) ''ship'' = Inr CONNECT_REPLY"
    by blast
  then show ?thesis using t by (simp add: CONNECT_REPLY_def)
qed

subsection \<open>Every request is answered\<close>

lemma U_append: "U (a @ b) = U a @ U b"
  by (simp add: U_def)

lemma encode_ascii_prefix:
  assumes "\<forall>c \<in> set a. of_char c < (128::nat)" and "clean x"
  shows "encode (U a @ x) = Inr (a @ concat (map encode_char x))"
  using assms by (simp add: encode_clean encode_U_ascii)









subsection \<open>The forwarded body\<close>

lemma after_blank_skip:
  assumes "a \<noteq> cr"
  shows "after_blank cr lf (a # xs) = after_blank cr lf xs"
proof (cases xs)
  case Nil
  then show ?thesis by simp
next
  case (Cons b r1)
  show ?thesis
  proof (cases r1)
    case Nil
    with Cons show ?thesis by simp
  next
    case c2: (Cons c r2)
    show ?thesis
    proof (cases r2)
      case Nil
      with Cons c2 show ?thesis by simp
    next
      case c3: (Cons d r3)
      with Cons c2 assms show ?thesis by simp
    qed
  qed
qed

lemma after_blank_skip_many:
  "\<forall>x \<in> set xs. x \<noteq> cr \<Longrightarrow> after_blank cr lf (xs @ ys) = after_blank cr lf ys"
  by (induction xs) (simp_all add: after_blank_skip)

lemma after_blank_cr:
  "after_blank cr lf (cr # xs)
     = (if prefix [lf, cr, lf] xs then Some (drop 3 xs) else after_blank cr lf xs)"
proof (cases "prefix [lf, cr, lf] xs")
  case True
  then obtain r where "xs = lf # cr # lf # r" by (auto simp: prefix_def)
  then show ?thesis by simp
next
  case False
  show ?thesis
  proof (cases "cr = lf")
    case True
    show ?thesis
    proof (cases xs)
      case Nil
      then show ?thesis by simp
    next
      case (Cons b r1)
      show ?thesis
      proof (cases r1)
        case Nil
        with Cons show ?thesis by simp
      next
        case c2: (Cons c r2)
        show ?thesis
        proof (cases r2)
          case Nil
          with Cons c2 show ?thesis by simp
        next
          case c3: (Cons d r3)
          with Cons c2 False True show ?thesis by auto
        qed
      qed
    qed
  next
    case ne: False
    show ?thesis
    proof (cases xs)
      case Nil
      then show ?thesis by simp
    next
      case (Cons b r1)
      show ?thesis
      proof (cases r1)
        case Nil
        with Cons show ?thesis by simp
      next
        case c2: (Cons c r2)
        show ?thesis
        proof (cases r2)
          case Nil
          with Cons c2 show ?thesis by simp
        next
          case c3: (Cons d r3)
          with Cons c2 False show ?thesis by auto
        qed
      qed
    qed
  qed
qed

lemma join_split_crlf: "join_crlf (split_crlf s) = s"
proof (induction s rule: split_crlf.induct)
  case 1
  then show ?case by simp
next
  case (2 c)
  then show ?case by simp
next
  case (3 c d r)
  show ?case
  proof (cases "c = 13 \<and> d = 10")
    case True
    with 3 show ?thesis
      using split_crlf_nonempty [of r] by (simp add: join_crlf_Cons CRLF_def)
  next
    case False
    with 3 have ih: "join_crlf (split_crlf (d # r)) = d # r" by simp
    obtain l ls where s: "split_crlf (d # r) = l # ls"
      using split_crlf_nonempty [of "d # r"] by (cases "split_crlf (d # r)") auto
    have j: "join_crlf ((c # l) # ls) = c # join_crlf (l # ls)"
      by (cases ls) simp_all
    have sp: "split_crlf (c # d # r) = prepend c (split_crlf (d # r))"
      using False by auto
    show ?thesis unfolding sp using s ih j by (simp add: prepend_def)
  qed
qed

lemma hd_split_crlf_empty:
  "hd (split_crlf s) = [] \<longleftrightarrow> s = [] \<or> prefix [13, 10] s"
proof (cases s rule: split_crlf.cases)
  case 1
  then show ?thesis by simp
next
  case (2 c)
  then show ?thesis by simp
next
  case (3 c d r)
  obtain l ls where "split_crlf (d # r) = l # ls"
    using split_crlf_nonempty [of "d # r"] by (cases "split_crlf (d # r)") auto
  with 3 show ?thesis by (auto simp: prepend_def)
qed

lemma tl_prepend: "ls \<noteq> [] \<Longrightarrow> tl (prepend c ls) = tl ls"
  by (cases ls) (simp_all add: prepend_def)

lemma body_text_Cons: "l \<noteq> [] \<Longrightarrow> body_text (l # ls) = body_text ls"
  by (simp add: body_text_def)

lemma body_text_split_crlf:
  "body_text (split_crlf r)
     = (if prefix [13, 10] r then Some (drop 2 r) else body_text (tl (split_crlf r)))"
proof (cases "prefix [13, 10] r")
  case True
  then obtain r' where r: "r = 13 # 10 # r'" by (auto simp: prefix_def)
  then show ?thesis
    using split_crlf_nonempty [of r'] join_split_crlf [of r'] by (simp add: body_text_def)
next
  case False
  show ?thesis
  proof (cases "r = []")
    case True
    then show ?thesis by (simp add: body_text_def)
  next
    case ne: False
    obtain l ls where s: "split_crlf r = l # ls"
      using split_crlf_nonempty [of r] by (cases "split_crlf r") auto
    with hd_split_crlf_empty [of r] False ne have "l \<noteq> []" by auto
    with s False show ?thesis by (simp add: body_text_Cons)
  qed
qed

lemma body_text_after_blank: "body_text (tl (split_crlf s)) = after_blank 13 10 s"
proof (induction s rule: split_crlf.induct)
  case 1
  then show ?case by (simp add: body_text_def)
next
  case (2 c)
  then show ?case by (simp add: body_text_def)
next
  case (3 c d r)
  show ?case
  proof (cases "c = 13 \<and> d = 10")
    case True
    then have l: "body_text (tl (split_crlf (c # d # r))) = body_text (split_crlf r)" by simp
    have ih: "body_text (tl (split_crlf r)) = after_blank 13 10 r" using 3 True by simp
    have "after_blank 13 10 (13 # 10 # r)
        = (if prefix [13, 10] r then Some (drop 2 r) else after_blank 13 10 r)"
    proof (cases "prefix [13, 10] r")
      case p: True
      then obtain r' where "r = 13 # 10 # r'" by (auto simp: prefix_def)
      then show ?thesis by simp
    next
      case np: False
      have "after_blank (13::nat) 10 (13 # 10 # r) = after_blank 13 10 (10 # r)"
        using np by (subst after_blank_cr) (auto simp: prefix_def)
      also have "\<dots> = after_blank 13 10 r" by (rule after_blank_skip) simp
      finally show ?thesis using np by simp
    qed
    with l ih True show ?thesis by (simp add: body_text_split_crlf)
  next
    case False
    then have sp: "split_crlf (c # d # r) = prepend c (split_crlf (d # r))" by auto
    have ih: "body_text (tl (split_crlf (d # r))) = after_blank 13 10 (d # r)"
      using 3 False by simp
    have "after_blank 13 10 (c # d # r) = after_blank 13 10 (d # r)"
    proof (cases "c = 13")
      case True
      with False have "d \<noteq> 10" by simp
      then show ?thesis unfolding True by (subst after_blank_cr) (simp add: prefix_def)
    next
      case nc: False
      then show ?thesis by (rule after_blank_skip)
    qed
    with ih show ?thesis
      unfolding sp by (simp add: tl_prepend split_crlf_nonempty)
  qed
qed

lemma scan_headers_body_start:
  "\<forall>l \<in> set (takeWhile (\<lambda>l. l \<noteq> []) ls). strip l \<noteq> [] \<Longrightarrow>
   snd (scan_headers i ls hs)
     = (if dropWhile (\<lambda>l. l \<noteq> []) ls = [] then -1
        else i + int (length (takeWhile (\<lambda>l. l \<noteq> []) ls)) + 1)"
proof (induction ls arbitrary: i hs)
  case Nil
  then show ?case by simp
next
  case (Cons l ls)
  show ?case
  proof (cases "l = []")
    case True
    then show ?thesis by (simp add: strip_def)
  next
    case False
    with Cons.prems have s: "strip l \<noteq> []"
      and w: "\<forall>l \<in> set (takeWhile (\<lambda>l. l \<noteq> []) ls). strip l \<noteq> []" by simp_all
    from Cons.IH [OF w] False s show ?thesis by auto
  qed
qed

lemma extract_body_text:
  assumes "lines \<noteq> []"
    and "\<forall>l \<in> set (takeWhile (\<lambda>l. l \<noteq> []) (tl lines)). strip l \<noteq> []"
  shows "extract_body lines = (case body_text (tl lines) of None \<Rightarrow> Inr [] | Some t \<Rightarrow> encode t)"
proof -
  obtain l0 ls where l: "lines = l0 # ls" using assms(1) by (cases lines) auto
  let ?k = "length (takeWhile (\<lambda>l. l \<noteq> []) ls)"
  have d: "dropWhile (\<lambda>l. l \<noteq> []) ls = drop ?k ls" by (rule dropWhile_eq_drop)
  show ?thesis
  proof (cases "dropWhile (\<lambda>l. l \<noteq> []) ls = []")
    case True
    have bt: "body_text ls = None" unfolding body_text_def True by simp
    have "snd (scan_headers 1 ls []) = -1"
      using scan_headers_body_start [of ls 1 "[]"] assms(2) l True by simp
    with l bt show ?thesis by (simp add: extract_body_def)
  next
    case False
    then obtain e rest where er: "dropWhile (\<lambda>l. l \<noteq> []) ls = e # rest"
      by (cases "dropWhile (\<lambda>l. l \<noteq> []) ls") auto
    have bs: "snd (scan_headers 1 ls []) = int ?k + 2"
      using scan_headers_body_start [of ls 1 "[]"] assms(2) l False by simp
    have "drop (nat (int ?k + 2)) lines = drop (Suc ?k) ls"
      using l by (simp add: nat_add_distrib)
    also have "\<dots> = tl (drop ?k ls)" by (simp add: drop_Suc drop_tl)
    also have "\<dots> = rest" unfolding d [symmetric] er by simp
    finally have dr: "drop (nat (int ?k + 2)) lines = rest" .
    have bt: "body_text ls = (if rest = [] then None else Some (join_crlf rest))"
      unfolding body_text_def er by simp
    have t: "tl lines = ls" using l by simp
    have "extract_body lines =
        (if snd (scan_headers 1 ls []) > 0
            \<and> drop (nat (snd (scan_headers 1 ls []))) lines \<noteq> []
         then encode (join_crlf (drop (nat (snd (scan_headers 1 ls []))) lines))
         else Inr [])"
      unfolding extract_body_def Let_def t by (rule refl)
    also have "\<dots> = (if rest \<noteq> [] then encode (join_crlf rest) else Inr [])"
      unfolding bs dr by simp
    finally show ?thesis unfolding t bt by simp
  qed
qed

lemma decode_Cons_ascii:
  "b < 128 \<Longrightarrow> utf8_decode_replace (b # r) = b # utf8_decode_replace r"
  by (simp add: utf8_decode_replace.simps)

lemma decode_head_ascii:
  assumes "a < 128"
  shows "prefix [a] (utf8_decode_replace bs) \<longleftrightarrow> prefix [a] bs"
proof (cases bs)
  case Nil
  then show ?thesis by simp
next
  case (Cons b0 r)
  from decode_step [of b0 r] obtain c k where "decode_step_ok b0 r c k" by blast
  then show ?thesis using Cons assms
    by (auto simp: decode_step_ok_def split: if_splits)
qed

lemma decode_prefix3:
  assumes "x < 128" "y < 128" "z < 128"
  shows "prefix [x, y, z] (utf8_decode_replace bs) \<longleftrightarrow> prefix [x, y, z] bs"
    and "prefix [x, y, z] bs \<Longrightarrow> drop 3 (utf8_decode_replace bs) = utf8_decode_replace (drop 3 bs)"
proof -
  have step: "prefix (a # as) (utf8_decode_replace bs') \<longleftrightarrow>
      (\<exists>r. bs' = a # r \<and> prefix as (utf8_decode_replace r))" if "a < 128" for a as bs'
  proof
    assume p: "prefix (a # as) (utf8_decode_replace bs')"
    then have "prefix [a] (utf8_decode_replace bs')" by (auto simp: prefix_def)
    with decode_head_ascii [OF that, of bs'] obtain r where r: "bs' = a # r"
      by (auto simp: prefix_def)
    with p that show "\<exists>r. bs' = a # r \<and> prefix as (utf8_decode_replace r)"
      by (simp add: decode_Cons_ascii)
  next
    assume "\<exists>r. bs' = a # r \<and> prefix as (utf8_decode_replace r)"
    with that show "prefix (a # as) (utf8_decode_replace bs')"
      by (auto simp: decode_Cons_ascii)
  qed
  show "prefix [x, y, z] (utf8_decode_replace bs) \<longleftrightarrow> prefix [x, y, z] bs"
    by (subst step [OF assms(1)], subst step [OF assms(2)], subst step [OF assms(3)])
      (auto simp: prefix_def)
  show "drop 3 (utf8_decode_replace bs) = utf8_decode_replace (drop 3 bs)"
    if "prefix [x, y, z] bs"
  proof -
    from that obtain r where "bs = x # y # z # r" by (auto simp: prefix_def)
    then show ?thesis using assms by (simp add: decode_Cons_ascii)
  qed
qed

lemma after_blank_decode:
  "after_blank 13 10 (utf8_decode_replace bs)
     = map_option utf8_decode_replace (after_blank 13 10 bs)"
proof (induction "length bs" arbitrary: bs rule: less_induct)
  case less
  show ?case
  proof (cases bs)
    case Nil
    then show ?thesis by simp
  next
    case (Cons b0 r)
    show ?thesis
    proof (cases "b0 = 13")
      case True
      have d: "utf8_decode_replace (13 # r) = 13 # utf8_decode_replace r"
        by (simp add: decode_Cons_ascii)
      have ih: "after_blank 13 10 (utf8_decode_replace r)
          = map_option utf8_decode_replace (after_blank 13 10 r)"
        using less [of r] Cons by simp
      have p: "prefix [10, 13, 10] (utf8_decode_replace r) \<longleftrightarrow> prefix [10, 13, 10] r"
        by (rule decode_prefix3(1)) simp_all
      show ?thesis
      proof (cases "prefix [10, 13, 10] r")
        case pt: True
        have "drop 3 (utf8_decode_replace r) = utf8_decode_replace (drop 3 r)"
          using pt by (intro decode_prefix3(2)) simp_all
        then show ?thesis
          unfolding Cons True d using pt p by (simp add: after_blank_cr)
      next
        case pf: False
        then show ?thesis
          unfolding Cons True d using p ih by (simp add: after_blank_cr)
      qed
    next
      case False
      from decode_step [of b0 r] obtain c k where s: "decode_step_ok b0 r c k" by blast
      then have d: "utf8_decode_replace bs = c # utf8_decode_replace (drop k r)"
        using Cons by (simp add: decode_step_ok_def)
      have c13: "c \<noteq> 13" using s False by (auto simp: decode_step_ok_def split: if_splits)
      have skip: "\<forall>x \<in> set (take k r). x \<noteq> 13"
        using s by (auto simp: decode_step_ok_def split: if_splits)
      have ih: "after_blank 13 10 (utf8_decode_replace (drop k r))
          = map_option utf8_decode_replace (after_blank 13 10 (drop k r))"
        using less [of "drop k r"] Cons by simp
      have "after_blank 13 10 bs = after_blank 13 10 r"
        unfolding Cons using False by (rule after_blank_skip)
      also have "\<dots> = after_blank 13 10 (take k r @ drop k r)" by simp
      also have "\<dots> = after_blank 13 10 (drop k r)"
        using skip by (rule after_blank_skip_many)
      finally have "after_blank 13 10 bs = after_blank 13 10 (drop k r)" .
      moreover have "after_blank 13 10 (utf8_decode_replace bs)
          = after_blank 13 10 (utf8_decode_replace (drop k r))"
        unfolding d using c13 by (rule after_blank_skip)
      ultimately show ?thesis using ih by simp
    qed
  qed
qed

lemma after_blank_map:
  "inj f \<Longrightarrow> after_blank (f cr) (f lf) (map f xs) = map_option (map f) (after_blank cr lf xs)"
  by (induction cr lf xs rule: after_blank.induct) (auto simp: inj_eq)

lemma after_blank_decode_bytes:
  "after_blank 13 10 (decode payload) = map_option decode (bytes_after_header payload)"
proof -
  have i: "inj (of_char :: char \<Rightarrow> nat)" by (rule inj_of_char)
  have "after_blank (of_char (CHR 0x0D)) (of_char (CHR 0x0A)) (map of_char payload :: nat list)
      = map_option (map of_char) (after_blank (CHR 0x0D) (CHR 0x0A) payload)"
    by (rule after_blank_map [OF i])
  then have "after_blank 13 10 (map of_char payload :: nat list)
      = map_option (map of_char) (bytes_after_header payload)"
    by (simp add: bytes_after_header_def)
  then show ?thesis
    unfolding decode_def after_blank_decode
    by (simp add: option.map_comp comp_def decode_def)
qed

lemma early_not_forward: "early r \<noteq> Inr (Inr req)"
  by (cases r) (simp_all add: early_def)

lemma forward_body:
  assumes "forward e lines meth url = Inr (Inr req)"
  shows "extract_body lines = Inr (req_body req)"
proof -
  from assms obtain parsed where u: "urlparse e url = Inr parsed"
    by (cases "urlparse e url") (simp_all add: forward_def)
  from assms u obtain h where h: "hostname parsed = Some h" "h \<noteq> []"
    by (cases "hostname parsed") (auto simp: forward_def early_not_forward split: if_splits)
  from assms u h obtain po where po: "port parsed = Inr po"
    by (cases "port parsed") (simp_all add: forward_def)
  from assms u h po obtain b where b: "extract_body lines = Inr b"
    by (cases "extract_body lines") (simp_all add: forward_def Let_def)
  with assms u h po have "req_body req = b"
    by (auto simp: forward_def Let_def)
  with b show ?thesis by simp
qed

lemma parse_request_body:
  assumes "parse_request e payload cid = Inr (Inr req)"
  shows "extract_body (split_crlf (decode payload)) = Inr (req_body req)"
proof -
  let ?lines = "split_crlf (decode payload)"
  let ?rl = "strip (hd ?lines)"
  have ne: "?lines \<noteq> []" by (rule split_crlf_nonempty)
  have rl: "?rl \<noteq> []"
    using assms ne by (auto simp: parse_request_def Let_def early_not_forward split: if_splits)
  have "\<exists>meth url version. split_char 32 ?rl = [meth, url, version]"
  proof (rule ccontr)
    assume "\<not> ?thesis"
    then have "parse_request e payload cid
        = early (create_error_response 400 (U ''Bad Request - Invalid request line: '' @ ?rl))"
      using rl ne by (simp add: parse_request_def Let_def split: list.splits)
    with assms show False by (simp add: early_not_forward)
  qed
  then obtain meth url version where p: "split_char 32 ?rl = [meth, url, version]" by blast
  have "parse_request e payload cid =
         (if map upper_ascii meth = U ''CONNECT''
          then early (handle_connect_method url cid)
          else if \<not> prefix (U ''http://'') url \<and> \<not> prefix (U ''https://'') url
          then
            if prefix (U ''/'') url
            then early (create_error_response 400
                   (U ''Bad Request - This is a proxy server. Configure your browser to use http://localhost:8080 as HTTP/HTTPS proxy, or use curl -x http://localhost:8080 <URL>''))
            else forward e ?lines meth (U ''http://'' @ url)
          else forward e ?lines meth url)"
    using ne rl p by (simp add: parse_request_def Let_def)
  with assms have "forward e ?lines meth (U ''http://'' @ url) = Inr (Inr req)
      \<or> forward e ?lines meth url = Inr (Inr req)"
    by (auto simp: early_not_forward split: if_splits)
  then show ?thesis using forward_body by blast
qed

lemma encode_decode_ascii:
  assumes "\<forall>c \<in> set tb. of_char c < (128::nat)"
  shows "encode (decode tb) = Inr tb"
proof -
  have "decode tb = U tb"
    using decode_ascii_prefix [OF assms, of "[]"] by (simp add: U_def decode_def)
  then show ?thesis
    using encode_ascii_prefix [OF assms, of "[]"] by simp
qed

text \<open>
  C9, as stated: for every payload, also with a body that is not UTF-8, the body forwarded
  to the origin is the raw bytes after the first \<open>CRLF CRLF\<close>. It is not: the processor
  decodes the whole payload with replacement and encodes the body again, so the one body
  byte \<open>FF\<close> is forwarded as the three bytes \<open>EF BF BD\<close>.
\<close>

theorem forwarded_body_counterexample:
  "bytes_after_header
     (''POST http://x/y HTTP/1.1'' @ [CHR 0x0D, CHR 0x0A] @ ''Content-Length: 1''
        @ [CHR 0x0D, CHR 0x0A, CHR 0x0D, CHR 0x0A, CHR 0xFF])
     = Some [CHR 0xFF]
   \<and> parse_request example_env
       (''POST http://x/y HTTP/1.1'' @ [CHR 0x0D, CHR 0x0A] @ ''Content-Length: 1''
          @ [CHR 0x0D, CHR 0x0A, CHR 0x0D, CHR 0x0A, CHR 0xFF]) ''ship''
     = Inr (Inr \<lparr>req_method = U ''POST'', req_host = U ''x'', req_port = 80, req_path = U ''/y'',
                 req_headers = [(U ''Content-Length'', U ''1'')],
                 req_body = [CHR 0xEF, CHR 0xBF, CHR 0xBD], req_use_ssl = False\<rparr>)"
  by (simp add: eval_defs)

text \<open>
  C9, amended: when no line between the request line and the first empty line consists of
  whitespace only, the forwarded body is the UTF-8 encoding of the replacement decoding of
  the bytes after the first \<open>CRLF CRLF\<close> of the payload, and empty when the payload has no
  \<open>CRLF CRLF\<close>; for ASCII bytes it is those bytes unchanged.
\<close>

theorem forwarded_body:
  assumes "parse_request e payload cid = Inr (Inr req)"
    and "\<forall>l \<in> set (takeWhile (\<lambda>l. l \<noteq> []) (tl (split_crlf (decode payload)))). strip l \<noteq> []"
  shows "(case bytes_after_header payload of
            None \<Rightarrow> req_body req = []
          | Some tb \<Rightarrow>
              encode (decode tb) = Inr (req_body req)
              \<and> ((\<forall>c \<in> set tb. of_char c < (128::nat)) \<longrightarrow> req_body req = tb))"
proof -
  let ?lines = "split_crlf (decode payload)"
  have ne: "?lines \<noteq> []" by (rule split_crlf_nonempty)
  have "extract_body ?lines
      = (case after_blank 13 10 (decode payload) of None \<Rightarrow> Inr [] | Some t \<Rightarrow> encode t)"
    using extract_body_text [OF ne assms(2)] by (simp add: body_text_after_blank)
  then have b: "Inr (req_body req)
      = (case map_option decode (bytes_after_header payload) of
           None \<Rightarrow> Inr [] | Some t \<Rightarrow> encode t)"
    using parse_request_body [OF assms(1)] by (simp add: after_blank_decode_bytes)
  show ?thesis
  proof (cases "bytes_after_header payload")
    case None
    with b show ?thesis by simp
  next
    case (Some tb)
    with b have e: "encode (decode tb) = Inr (req_body req)" by simp
    then show ?thesis using Some encode_decode_ascii [of tb] by auto
  qed
qed

theorem forwarded_body_witness:
  "parse_request example_env
       (''POST http://x/y HTTP/1.1'' @ [CHR 0x0D, CHR 0x0A] @ ''Content-Length: 5''
          @ [CHR 0x0D, CHR 0x0A, CHR 0x0D, CHR 0x0A] @ ''hello'') ''ship''
     = Inr (Inr \<lparr>req_method = U ''POST'', req_host = U ''x'', req_port = 80, req_path = U ''/y'',
                 req_headers = [(U ''Content-Length'', U ''5'')],
                 req_body = ''hello'', req_use_ssl = False\<rparr>)
   \<and> bytes_after_header
       (''POST http://x/y HTTP/1.1'' @ [CHR 0x0D, CHR 0x0A] @ ''Content-Length: 5''
          @ [CHR 0x0D, CHR 0x0A, CHR 0x0D, CHR 0x0A] @ ''hello'')
     = Some ''hello''
   \<and> encode (decode ''hello'') = Inr ''hello''"
proof -
  let ?p = "''POST http://x/y HTTP/1.1'' @ [CHR 0x0D, CHR 0x0A] @ ''Content-Length: 5''
          @ [CHR 0x0D, CHR 0x0A, CHR 0x0D, CHR 0x0A] @ ''hello''"
  let ?req = "\<lparr>req_method = U ''POST'', req_host = U ''x'', req_port = 80, req_path = U ''/y'',
                 req_headers = [(U ''Content-Length'', U ''5'')],
                 req_body = ''hello'', req_use_ssl = False\<rparr>"
  have p: "parse_request example_env ?p ''ship'' = Inr (Inr ?req)"
    by (simp add: eval_defs)
  have w: "\<forall>l \<in> set (takeWhile (\<lambda>l. l \<noteq> []) (tl (split_crlf (decode ?p)))). strip l \<noteq> []"
    by (simp add: eval_defs)
  have b: "bytes_after_header ?p = Some ''hello''"
    by (simp add: bytes_after_header_def)
  from forwarded_body [OF p w] b
  have "encode (decode ''hello'') = Inr (req_body ?req)" by simp
  with p b show ?thesis by simp
qed

end
